theory Spec2Isabelle
  imports Main "HOL-Library.Word"
begin

unbundle bit_operations_syntax

section \<open>The salvador ZX0 compressor: bit writer, emitter and driver of shrink.c\<close>

text \<open>
  C \<open>int\<close> values are modelled as \<open>int\<close>: every quantity of shrink.c that is embedded
  here (positions, lengths, offsets, bit counts) stays far below \<open>2 ^ 30\<close> on the inputs
  the driver accepts (blocks of at most \<open>BLOCK_SIZE\<close> bytes), so no signed overflow occurs.
  Bytes are \<open>8 word\<close>. A pointer into the output buffer is an index: the output buffer is
  a store from indices (relative to \<open>pOutData\<close>) to bytes, because the bit cursor of a
  later block may point below \<open>pOutData\<close>, into the bytes of the block before.
\<close>

type_synonym byte = "8 word"

definition INT_MIN :: int where
  "INT_MIN = - 2147483648"

subsection \<open>salvador_write_bits\<close>

text \<open>
  The output buffer together with the write index and the cursor of the byte that is
  being filled with bits. \<open>nCurBitsOffset = INT_MIN\<close> means that no byte is open.
  A function that returns the updated write index, or \<open>-1\<close>, returns it in \<open>nOutOffset\<close>.
\<close>

record bitwriter =
  pOutData :: "int \<Rightarrow> byte"
  nOutOffset :: int
  nCurBitsOffset :: int
  nCurBitShift :: int

text \<open>
  The body of the loop of salvador_write_bits after its capacity test: open a new byte
  when none is open, put the bit at the cursor, and close the byte when it is full.
\<close>

definition put_bit :: "bitwriter \<Rightarrow> bool \<Rightarrow> bitwriter" where
  "put_bit w b =
     (let w1 = (if nCurBitsOffset w = INT_MIN
                then w\<lparr>pOutData := (pOutData w)(nOutOffset w := 0),
                       nOutOffset := nOutOffset w + 1,
                       nCurBitsOffset := nOutOffset w,
                       nCurBitShift := 7\<rparr>
                else w);
          w2 = w1\<lparr>pOutData := (pOutData w1)(nCurBitsOffset w1 :=
                       pOutData w1 (nCurBitsOffset w1)
                         OR push_bit (nat (nCurBitShift w1)) (of_bool b)),
                  nCurBitShift := nCurBitShift w1 - 1\<rparr>
      in if nCurBitShift w2 = - 1 then w2\<lparr>nCurBitsOffset := INT_MIN\<rparr> else w2)"

text \<open>
  The loop \<open>for (i = nBits - 1; i >= 0; i--)\<close> of salvador_write_bits; the bit written is
  \<open>(nValue >> i) & 1\<close>.
\<close>

function write_bits_loop :: "int \<Rightarrow> int \<Rightarrow> int \<Rightarrow> bitwriter \<Rightarrow> bitwriter" where
  "write_bits_loop nMaxOutDataSize nValue i w =
     (if i < 0 then w
      else if nCurBitsOffset w = INT_MIN \<and> nMaxOutDataSize \<le> nOutOffset w
      then w\<lparr>nOutOffset := - 1\<rparr>
      else write_bits_loop nMaxOutDataSize nValue (i - 1) (put_bit w (bit nValue (nat i))))"
  by pat_completeness auto
termination
  by (relation "measure (\<lambda>(m, v, i, w). nat (i + 1))") auto

declare write_bits_loop.simps [simp del]

definition salvador_write_bits :: "bitwriter \<Rightarrow> int \<Rightarrow> int \<Rightarrow> int \<Rightarrow> bitwriter" where
  "salvador_write_bits w nMaxOutDataSize nValue nBits =
     (if nOutOffset w < 0 then w\<lparr>nOutOffset := - 1\<rparr>
      else write_bits_loop nMaxOutDataSize nValue (nBits - 1) w)"

subsection \<open>salvador_get_elias_size and salvador_write_elias_value\<close>

text \<open>
  The loop \<open>for (i = 2; i <= nValue; i <<= 1);\<close>, entered with \<open>i = 2\<close>. The test
  \<open>0 < i\<close> is always true in the code, where \<open>i\<close> is a power of two.
\<close>

function elias_top :: "int \<Rightarrow> int \<Rightarrow> int" where
  "elias_top nValue i = (if 0 < i \<and> i \<le> nValue then elias_top nValue (2 * i) else i)"
  by pat_completeness auto
termination
  by (relation "measure (\<lambda>(v, i). nat (v + 1 - i))") auto

declare elias_top.simps [simp del]

text \<open>The loop \<open>while ((i >>= 1) > 0) { nBits++; nBits++; }\<close>.\<close>

function elias_size_loop :: "int \<Rightarrow> int \<Rightarrow> int" where
  "elias_size_loop i nBits =
     (let i' = i div 2 in if 0 < i' then elias_size_loop i' (nBits + 2) else nBits)"
  by pat_completeness auto
termination
  by (relation "measure (\<lambda>(i, n). nat i)") auto

declare elias_size_loop.simps [simp del]

definition salvador_get_elias_size :: "int \<Rightarrow> int" where
  "salvador_get_elias_size nValue = elias_size_loop (elias_top nValue 2 div 2) 0 + 1"

text \<open>
  The loop \<open>while ((i >>= 1) > 0)\<close> of salvador_write_elias_value. \<open>nFirstBit\<close> is the
  index of the byte that takes the first bit, or \<open>None\<close> for the null pointer.
\<close>

function elias_write_loop ::
  "int \<Rightarrow> int \<Rightarrow> int \<Rightarrow> int \<Rightarrow> bitwriter \<times> int option \<Rightarrow> bitwriter \<times> int option" where
  "elias_write_loop nMaxOutDataSize nValue nIsInverted i (w, nFirstBit) =
     (let i' = i div 2 in
      if 0 < i' then
        let (w1, nFirstBit1) =
              (case nFirstBit of
                 Some p \<Rightarrow> (w\<lparr>pOutData := (pOutData w)(p := pOutData w p AND 0xfe)\<rparr>, None)
               | None \<Rightarrow> (salvador_write_bits w nMaxOutDataSize 0 1, None));
            w2 = (if nIsInverted \<noteq> 0
                  then salvador_write_bits w1 nMaxOutDataSize
                         (if nValue AND i' \<noteq> 0 then 0 else 1) 1
                  else salvador_write_bits w1 nMaxOutDataSize
                         (if nValue AND i' \<noteq> 0 then 1 else 0) 1)
        in elias_write_loop nMaxOutDataSize nValue nIsInverted i' (w2, nFirstBit1)
      else (w, nFirstBit))"
  by pat_completeness auto
termination
  by (relation "measure (\<lambda>(m, v, iv, i, s). nat i)") auto

declare elias_write_loop.simps [simp del]

definition salvador_write_elias_value ::
  "bitwriter \<Rightarrow> int \<Rightarrow> int \<Rightarrow> int \<Rightarrow> int option \<Rightarrow> bitwriter" where
  "salvador_write_elias_value w nMaxOutDataSize nValue nIsInverted nFirstBit =
     (case elias_write_loop nMaxOutDataSize nValue nIsInverted
             (elias_top nValue 2 div 2) (w, nFirstBit) of
        (w1, Some p) \<Rightarrow> w1\<lparr>pOutData := (pOutData w1)(p := (pOutData w1 p AND 0xfe) OR 1)\<rparr>
      | (w1, None) \<Rightarrow> salvador_write_bits w1 nMaxOutDataSize 1 1)"

definition salvador_get_literals_varlen_size :: "int \<Rightarrow> int" where
  "salvador_get_literals_varlen_size nLength =
     (if 0 < nLength then 1 + salvador_get_elias_size nLength else 0)"

definition salvador_write_literals_varlen :: "bitwriter \<Rightarrow> int \<Rightarrow> int \<Rightarrow> bitwriter" where
  "salvador_write_literals_varlen w nMaxOutDataSize nLength =
     salvador_write_elias_value w nMaxOutDataSize nLength 0 None"

definition salvador_get_match_varlen_size_norep :: "int \<Rightarrow> int" where
  "salvador_get_match_varlen_size_norep nLength = salvador_get_elias_size (nLength + 1)"

definition salvador_get_match_varlen_size_rep :: "int \<Rightarrow> int" where
  "salvador_get_match_varlen_size_rep nLength = salvador_get_elias_size (nLength + 1 + 1)"

definition salvador_write_match_varlen ::
  "bitwriter \<Rightarrow> int \<Rightarrow> int \<Rightarrow> int \<Rightarrow> int option \<Rightarrow> bitwriter" where
  "salvador_write_match_varlen w nMaxOutDataSize nLength nIsRepMatch nFirstBit =
     salvador_write_elias_value w nMaxOutDataSize
       (nLength + 1 + (if nIsRepMatch \<noteq> 0 then 1 else 0)) 0 nFirstBit"

definition OFFSET_COST :: "int \<Rightarrow> int" where
  "OFFSET_COST nOffset =
     (if nOffset \<le> 128 then 8 else 7 + salvador_get_elias_size (((nOffset - 1) div 128) + 1))"

subsection \<open>Constants of format.h and libsalvador.h\<close>

text \<open>
  Modelled from the spec: format.h and libsalvador.h are not among the sources. The
  smallest offset is 1 ("Offsets are in [1, max_offset]"). The end-of-data marker is the
  gamma code of 256 in the place of the high part of an offset, "an out-of-range offset",
  so the largest high part \<open>((offset - 1) >> 7) + 1\<close> of a real offset is 255, which
  makes the format maximum \<open>255 * 128 = 0x7f80\<close>. \<open>FLG_IS_INVERTED\<close> is a single flag
  bit. No theorem below depends on these values except where it says so.
\<close>

definition MIN_OFFSET :: int where
  "MIN_OFFSET = 1"

definition MAX_OFFSET :: int where
  "MAX_OFFSET = 32640"

definition FLG_IS_INVERTED :: int where
  "FLG_IS_INVERTED = 1"

subsection \<open>salvador_write_block\<close>

record salvador_final_match =
  length_fm :: int
  offset_fm :: int

text \<open>The statistics of libsalvador.h that salvador_write_block maintains.\<close>

record salvador_stats =
  min_literals :: int
  max_literals :: int
  total_literals :: int
  literals_divisor :: int
  num_rep_matches :: int
  min_offset :: int
  max_offset_stat :: int
  total_offsets :: int
  min_match_len :: int
  max_match_len :: int
  total_match_lens :: int
  match_divisor :: int
  min_rle1_len :: int
  max_rle1_len :: int
  total_rle1_lens :: int
  rle1_divisor :: int
  min_rle2_len :: int
  max_rle2_len :: int
  total_rle2_lens :: int
  rle2_divisor :: int
  safe_dist :: int
  commands_divisor :: int

text \<open>The fields of the compression context that the emitter and the driver use.\<close>

record salvador_compressor =
  max_offset :: int
  flags :: int
  stats :: salvador_stats

text \<open>
  The arguments of salvador_write_block that stay fixed during the call, with its two
  constant locals \<open>nMaxOffset\<close> and \<open>nIsInverted\<close>. \<open>pBestMatch\<close> and \<open>pInWindow\<close> are
  indexed by window position, as the pointers of the code are.
\<close>

record wb_const =
  nMaxOffset :: int
  nIsInverted :: int
  pBestMatch :: "int \<Rightarrow> salvador_final_match"
  pInWindow :: "int \<Rightarrow> byte"
  nStartOffset :: int
  nEndOffset :: int
  nMaxOutDataSize :: int
  nBlockFlags :: int

text \<open>
  The variables of salvador_write_block: the output buffer with its cursor, the loop
  index \<open>i\<close>, the locals, the statistics and the out-parameter \<open>*nFinalLiterals\<close>.
\<close>

record wb_state =
  wr :: bitwriter
  i_pos :: int
  nNumLiterals :: int
  nInFirstLiteralOffset :: int
  nIsFirstCommand :: int
  nRepMatchOffset :: int
  nFinalLiterals :: int
  cstats :: salvador_stats

definition memcpy_out :: "(int \<Rightarrow> byte) \<Rightarrow> int \<Rightarrow> (int \<Rightarrow> byte) \<Rightarrow> int \<Rightarrow> int \<Rightarrow> (int \<Rightarrow> byte)" where
  "memcpy_out dst d src s n = (\<lambda>k. if d \<le> k \<and> k < d + n then src (s + (k - d)) else dst k)"

definition stats_literals :: "salvador_stats \<Rightarrow> int \<Rightarrow> salvador_stats" where
  "stats_literals st n =
     st\<lparr>min_literals := (if n < min_literals st \<or> min_literals st = - 1 then n else min_literals st),
        max_literals := (if n > max_literals st then n else max_literals st),
        total_literals := total_literals st + n,
        literals_divisor := literals_divisor st + 1\<rparr>"

text \<open>The statistics of one match, lines 1219 to 1252, before \<open>i += nMatchLen\<close>.\<close>

definition stats_match :: "salvador_stats \<Rightarrow> int \<Rightarrow> int \<Rightarrow> int \<Rightarrow> salvador_stats" where
  "stats_match st nMatchOffset nMatchLen nRepOffset =
     (let st1 = st\<lparr>num_rep_matches :=
                     (if nMatchOffset = nRepOffset then num_rep_matches st + 1 else num_rep_matches st),
                   min_offset := (if nMatchOffset < min_offset st \<or> min_offset st = - 1
                                  then nMatchOffset else min_offset st),
                   max_offset_stat := (if nMatchOffset > max_offset_stat st
                                       then nMatchOffset else max_offset_stat st),
                   total_offsets := total_offsets st + nMatchOffset,
                   min_match_len := (if nMatchLen < min_match_len st \<or> min_match_len st = - 1
                                     then nMatchLen else min_match_len st),
                   max_match_len := (if nMatchLen > max_match_len st
                                     then nMatchLen else max_match_len st),
                   total_match_lens := total_match_lens st + nMatchLen,
                   match_divisor := match_divisor st + 1\<rparr>
      in if nMatchOffset = 1 then
           st1\<lparr>min_rle1_len := (if nMatchLen < min_rle1_len st1 \<or> min_rle1_len st1 = - 1
                                 then nMatchLen else min_rle1_len st1),
               max_rle1_len := (if nMatchLen > max_rle1_len st1 then nMatchLen else max_rle1_len st1),
               total_rle1_lens := total_rle1_lens st1 + nMatchLen,
               rle1_divisor := rle1_divisor st1 + 1\<rparr>
         else if nMatchOffset = 2 then
           st1\<lparr>min_rle2_len := (if nMatchLen < min_rle2_len st1 \<or> min_rle2_len st1 = - 1
                                 then nMatchLen else min_rle2_len st1),
               max_rle2_len := (if nMatchLen > max_rle2_len st1 then nMatchLen else max_rle2_len st1),
               total_rle2_lens := total_rle2_lens st1 + nMatchLen,
               rle2_divisor := rle2_divisor st1 + 1\<rparr>
         else st1)"

text \<open>
  A step that returns \<open>-1\<close> is \<open>Inl\<close> of the state at the return: the bytes written so
  far stay in the buffer. The length of the literal run and the guarded copy of its bytes
  (lines 1179 to 1185, and again 1292 to 1298).
\<close>

definition wb_literals_payload :: "wb_const \<Rightarrow> wb_state \<Rightarrow> wb_state + wb_state" where
  "wb_literals_payload c s =
     (let w1 = salvador_write_literals_varlen (wr s) (nMaxOutDataSize c) (nNumLiterals s) in
      if nOutOffset w1 < 0 then Inl (s\<lparr>wr := w1\<rparr>)
      else if nOutOffset w1 + nNumLiterals s > nMaxOutDataSize c then Inl (s\<lparr>wr := w1\<rparr>)
      else Inr (s\<lparr>wr := w1\<lparr>pOutData := memcpy_out (pOutData w1) (nOutOffset w1)
                                         (pInWindow c) (nInFirstLiteralOffset s) (nNumLiterals s),
                            nOutOffset := nOutOffset w1 + nNumLiterals s\<rparr>\<rparr>))"

text \<open>The literals command: its token, unless it is the first command (lines 1170 to 1185).\<close>

definition wb_literals :: "wb_const \<Rightarrow> wb_state \<Rightarrow> wb_state + wb_state" where
  "wb_literals c s =
     (if nIsFirstCommand s = 0 then
        (let w1 = salvador_write_bits (wr s) (nMaxOutDataSize c) 0 1 in
         if nOutOffset w1 < 0 then Inl (s\<lparr>wr := w1\<rparr>)
         else wb_literals_payload c (s\<lparr>wr := w1\<rparr>))
      else wb_literals_payload c (s\<lparr>nIsFirstCommand := 0\<rparr>))"

text \<open>The rep match (lines 1189 to 1195).\<close>

definition wb_rep_match :: "wb_const \<Rightarrow> int \<Rightarrow> wb_state \<Rightarrow> wb_state + wb_state" where
  "wb_rep_match c nEncodedMatchLen s =
     (let w1 = salvador_write_bits (wr s) (nMaxOutDataSize c) 0 1 in
      if nOutOffset w1 < 0 then Inl (s\<lparr>wr := w1\<rparr>)
      else
        let w2 = salvador_write_match_varlen w1 (nMaxOutDataSize c) nEncodedMatchLen 1 None in
        if nOutOffset w2 < 0 then Inl (s\<lparr>wr := w2\<rparr>) else Inr (s\<lparr>wr := w2\<rparr>))"

text \<open>The match with offset (lines 1198 to 1214).\<close>

definition low_offset_byte :: "int \<Rightarrow> byte" where
  "low_offset_byte nMatchOffset = word_of_int ((255 - ((nMatchOffset - 1) AND 0x7f)) * 2)"

definition wb_offset_match :: "wb_const \<Rightarrow> int \<Rightarrow> int \<Rightarrow> wb_state \<Rightarrow> wb_state + wb_state" where
  "wb_offset_match c nMatchOffset nEncodedMatchLen s =
     (let w1 = salvador_write_bits (wr s) (nMaxOutDataSize c) 1 1 in
      if nOutOffset w1 < 0 then Inl (s\<lparr>wr := w1\<rparr>)
      else
        let w2 = salvador_write_elias_value w1 (nMaxOutDataSize c)
                   (((nMatchOffset - 1) div 128) + 1) (nIsInverted c) None in
        if nOutOffset w2 < 0 then Inl (s\<lparr>wr := w2\<rparr>)
        else if nOutOffset w2 \<ge> nMaxOutDataSize c then Inl (s\<lparr>wr := w2\<rparr>)
        else
          let pFirstBit = nOutOffset w2;
              w3 = w2\<lparr>pOutData := (pOutData w2)(nOutOffset w2 := low_offset_byte nMatchOffset),
                      nOutOffset := nOutOffset w2 + 1\<rparr>;
              w4 = salvador_write_match_varlen w3 (nMaxOutDataSize c) nEncodedMatchLen 0
                     (Some pFirstBit)
          in if nOutOffset w4 < 0 then Inl (s\<lparr>wr := w4\<rparr>) else Inr (s\<lparr>wr := w4\<rparr>))"

text \<open>The test of line 1147: the position starts a match command.\<close>

definition wb_is_match :: "wb_const \<Rightarrow> wb_state \<Rightarrow> bool" where
  "wb_is_match c s =
     (let pMatch = pBestMatch c (i_pos s) in
      length_fm pMatch \<ge> 2 \<or>
      (length_fm pMatch \<ge> 1 \<and> offset_fm pMatch = nRepMatchOffset s \<and> nNumLiterals s \<noteq> 0))"

text \<open>The pending literals of a match command, with their statistics (lines 1160 to 1186).\<close>

definition wb_match_literals :: "wb_const \<Rightarrow> wb_state \<Rightarrow> wb_state + wb_state" where
  "wb_match_literals c s =
     (if nNumLiterals s \<noteq> 0
      then wb_literals c (s\<lparr>cstats := stats_literals (cstats s) (nNumLiterals s)\<rparr>)
      else Inr s)"

text \<open>The choice between the rep match and the match with offset (lines 1188 to 1215).\<close>

definition wb_match_command :: "wb_const \<Rightarrow> int \<Rightarrow> int \<Rightarrow> wb_state \<Rightarrow> wb_state + wb_state" where
  "wb_match_command c nMatchOffset nEncodedMatchLen s =
     (if nMatchOffset = nRepMatchOffset s \<and> nNumLiterals s \<noteq> 0
      then wb_rep_match c nEncodedMatchLen s
      else wb_offset_match c nMatchOffset nEncodedMatchLen s)"

text \<open>The bookkeeping after a match has been written (lines 1217 to 1260).\<close>

definition wb_match_done :: "wb_const \<Rightarrow> int \<Rightarrow> int \<Rightarrow> wb_state \<Rightarrow> wb_state" where
  "wb_match_done c nMatchOffset nMatchLen s =
     (let st = stats_match (cstats s) nMatchOffset nMatchLen (nRepMatchOffset s);
          i' = i_pos s + nMatchLen;
          nCurSafeDist = (i' - nStartOffset c) - nOutOffset (wr s)
      in s\<lparr>nNumLiterals := 0,
            nRepMatchOffset := nMatchOffset,
            i_pos := i',
            cstats := st\<lparr>safe_dist := (if nCurSafeDist \<ge> 0 \<and> safe_dist st < nCurSafeDist
                                        then nCurSafeDist else safe_dist st),
                        commands_divisor := commands_divisor st + 1\<rparr>\<rparr>)"

text \<open>The match branch of the loop body (lines 1148 to 1260).\<close>

definition wb_match :: "wb_const \<Rightarrow> wb_state \<Rightarrow> wb_state + wb_state" where
  "wb_match c s =
     (let nMatchOffset = offset_fm (pBestMatch c (i_pos s));
          nMatchLen = length_fm (pBestMatch c (i_pos s));
          nEncodedMatchLen = nMatchLen - 2
      in
      if nMatchOffset < MIN_OFFSET \<or> nMatchOffset > nMaxOffset c \<or> nMatchOffset > MAX_OFFSET
      then Inl s
      else if nIsFirstCommand s \<noteq> 0 \<and> nNumLiterals s = 0 then Inl s
      else
        case wb_match_literals c s of
          Inl e \<Rightarrow> Inl e
        | Inr s1 \<Rightarrow>
            (case wb_match_command c nMatchOffset nEncodedMatchLen s1 of
               Inl e \<Rightarrow> Inl e
             | Inr s2 \<Rightarrow> Inr (wb_match_done c nMatchOffset nMatchLen s2)))"

text \<open>The body of the loop \<open>for (i = nStartOffset; i < nEndOffset; )\<close>.\<close>

definition wb_step :: "wb_const \<Rightarrow> wb_state \<Rightarrow> wb_state + wb_state" where
  "wb_step c s =
     (if wb_is_match c s then wb_match c s
      else Inr (s\<lparr>nInFirstLiteralOffset :=
                     (if nNumLiterals s = 0 then i_pos s else nInFirstLiteralOffset s),
                  nNumLiterals := nNumLiterals s + 1,
                  i_pos := i_pos s + 1\<rparr>))"

function wb_loop :: "wb_const \<Rightarrow> wb_state \<Rightarrow> wb_state + wb_state" where
  "wb_loop c s =
     (if i_pos s < nEndOffset c then
        (case wb_step c s of Inl e \<Rightarrow> Inl e | Inr s' \<Rightarrow> wb_loop c s')
      else Inr s)"
  by pat_completeness auto

termination
proof (relation "measure (\<lambda>(c, s). nat (nEndOffset c - i_pos s))")
  show "wf (measure (\<lambda>(c, s). nat (nEndOffset c - i_pos s)))" by simp
next
  fix c :: wb_const and s s' :: wb_state
  assume lt: "i_pos s < nEndOffset c" and st: "wb_step c s = Inr s'"
  have pay: "\<And>a b. wb_literals_payload c a = Inr b \<Longrightarrow> i_pos b = i_pos a"
    by (auto simp: wb_literals_payload_def Let_def split: if_splits)
  have lit: "\<And>a b. wb_literals c a = Inr b \<Longrightarrow> i_pos b = i_pos a"
    by (auto simp: wb_literals_def Let_def split: if_splits dest: pay)
  have mlit: "\<And>a b. wb_match_literals c a = Inr b \<Longrightarrow> i_pos b = i_pos a"
    by (auto simp: wb_match_literals_def split: if_splits dest: lit)
  have rep: "\<And>a b n. wb_rep_match c n a = Inr b \<Longrightarrow> i_pos b = i_pos a"
    by (auto simp: wb_rep_match_def Let_def split: if_splits)
  have off: "\<And>a b n k. wb_offset_match c k n a = Inr b \<Longrightarrow> i_pos b = i_pos a"
    by (auto simp: wb_offset_match_def Let_def split: if_splits)
  have cmd: "\<And>a b n k. wb_match_command c k n a = Inr b \<Longrightarrow> i_pos b = i_pos a"
    by (auto simp: wb_match_command_def split: if_splits dest: rep off)
  have "i_pos s < i_pos s'"
  proof (cases "wb_is_match c s")
    case False
    with st show ?thesis by (auto simp: wb_step_def)
  next
    case True
    then have len: "1 \<le> length_fm (pBestMatch c (i_pos s))"
      by (auto simp: wb_is_match_def Let_def)
    from True st have m: "wb_match c s = Inr s'" by (simp add: wb_step_def)
    then show ?thesis
      using len
      by (auto simp: wb_match_def wb_match_done_def Let_def split: if_splits sum.splits
          dest!: mlit cmd)
  qed
  then show "((c, s'), (c, s)) \<in> measure (\<lambda>(c, s). nat (nEndOffset c - i_pos s))"
    using lt by simp
qed

declare wb_loop.simps [simp del]

text \<open>The end-of-data marker (lines 1302 to 1306).\<close>

definition wb_end_marker :: "wb_const \<Rightarrow> wb_state \<Rightarrow> wb_state + wb_state" where
  "wb_end_marker c s =
     (let w1 = salvador_write_bits (wr s) (nMaxOutDataSize c) 1 1 in
      if nOutOffset w1 < 0 then Inl (s\<lparr>wr := w1\<rparr>)
      else
        let w2 = salvador_write_elias_value w1 (nMaxOutDataSize c) 256 (nIsInverted c) None
        in if nOutOffset w2 < 0 then Inl (s\<lparr>wr := w2\<rparr>) else Inr (s\<lparr>wr := w2\<rparr>))"

text \<open>The final literals of the last block (lines 1280 to 1300).\<close>

definition wb_final_literals :: "wb_const \<Rightarrow> wb_state \<Rightarrow> wb_state + wb_state" where
  "wb_final_literals c s =
     (if nNumLiterals s \<noteq> 0
      then (case wb_literals c s of
              Inl e \<Rightarrow> Inl e
            | Inr s2 \<Rightarrow> Inr (s2\<lparr>nNumLiterals := 0\<rparr>))
      else Inr s)"

text \<open>
  After the loop (lines 1270 to 1310): the last block writes the pending literals and the
  end-of-data marker, any other block hands the pending literals to the next block.
\<close>

definition wb_finish :: "wb_const \<Rightarrow> wb_state \<Rightarrow> wb_state + wb_state" where
  "wb_finish c s =
     (if nBlockFlags c AND 2 \<noteq> 0 then
        (case wb_final_literals c
                (s\<lparr>cstats := stats_literals (cstats s) (nNumLiterals s), nFinalLiterals := 0\<rparr>) of
           Inl e \<Rightarrow> Inl e
         | Inr s3 \<Rightarrow> wb_end_marker c s3)
      else Inr (s\<lparr>nFinalLiterals := nNumLiterals s\<rparr>))"

text \<open>
  What salvador_write_block returns and leaves behind: the return value, the output buffer
  with the bit cursor, \<open>*nFinalLiterals\<close>, \<open>*nCurRepMatchOffset\<close> (written on success only)
  and the statistics.
\<close>

record wb_result =
  ret :: int
  out :: bitwriter
  final_literals :: int
  rep_match_offset :: int
  stats_out :: salvador_stats

definition wb_init :: "salvador_compressor \<Rightarrow> int \<Rightarrow> bitwriter \<Rightarrow> int \<Rightarrow> int \<Rightarrow> int \<Rightarrow> wb_state" where
  "wb_init pCompressor nStartOffset' w nFinalLiterals' nCurRepMatchOffset nBlockFlags' =
     \<lparr>wr = w, i_pos = nStartOffset', nNumLiterals = 0, nInFirstLiteralOffset = 0,
      nIsFirstCommand = (if nBlockFlags' AND 1 \<noteq> 0 then 1 else 0),
      nRepMatchOffset = nCurRepMatchOffset, nFinalLiterals = nFinalLiterals',
      cstats = stats pCompressor\<rparr>"

definition wb_consts ::
  "salvador_compressor \<Rightarrow> (int \<Rightarrow> salvador_final_match) \<Rightarrow> (int \<Rightarrow> byte) \<Rightarrow> int \<Rightarrow> int \<Rightarrow>
   int \<Rightarrow> int \<Rightarrow> wb_const" where
  "wb_consts pCompressor pBestMatch' pInWindow' nStartOffset' nEndOffset' nMaxOutDataSize' nBlockFlags' =
     \<lparr>nMaxOffset = max_offset pCompressor,
      nIsInverted = (if flags pCompressor AND FLG_IS_INVERTED \<noteq> 0 then 1 else 0),
      pBestMatch = pBestMatch', pInWindow = pInWindow',
      nStartOffset = nStartOffset', nEndOffset = nEndOffset',
      nMaxOutDataSize = nMaxOutDataSize', nBlockFlags = nBlockFlags'\<rparr>"

definition salvador_write_block ::
  "salvador_compressor \<Rightarrow> (int \<Rightarrow> salvador_final_match) \<Rightarrow> (int \<Rightarrow> byte) \<Rightarrow> int \<Rightarrow> int \<Rightarrow>
   bitwriter \<Rightarrow> int \<Rightarrow> int \<Rightarrow> int \<Rightarrow> int \<Rightarrow> wb_result" where
  "salvador_write_block pCompressor pBestMatch' pInWindow' nStartOffset' nEndOffset' w
     nMaxOutDataSize' nFinalLiterals' nCurRepMatchOffset nBlockFlags' =
     (let c = wb_consts pCompressor pBestMatch' pInWindow' nStartOffset' nEndOffset'
                nMaxOutDataSize' nBlockFlags';
          s0 = wb_init pCompressor nStartOffset' w nFinalLiterals' nCurRepMatchOffset nBlockFlags'
      in case (case wb_loop c s0 of Inl e \<Rightarrow> Inl e | Inr s1 \<Rightarrow> wb_finish c s1) of
           Inl e \<Rightarrow> \<lparr>ret = - 1, out = wr e, final_literals = nFinalLiterals e,
                      rep_match_offset = nCurRepMatchOffset, stats_out = cstats e\<rparr>
         | Inr s2 \<Rightarrow> \<lparr>ret = nOutOffset (wr s2), out = wr s2, final_literals = nFinalLiterals s2,
                       rep_match_offset = nRepMatchOffset s2, stats_out = cstats s2\<rparr>)"

subsection \<open>The driver: salvador_compressor_shrink_block and salvador_compress\<close>

text \<open>
  The match finder (matchfinder.c) is not among the sources, and the claims about the
  driver do not depend on how the parse is chosen. A \<open>parser\<close> stands for everything that
  fills \<open>pCompressor->best_match\<close> before salvador_write_block runs: from the compression
  context, the input window, \<open>nPreviousBlockSize\<close>, \<open>nInDataSize\<close>, the rep offset and the
  block flags it gives the parse, indexed by window position, or \<open>None\<close> when
  salvador_build_suffix_array fails. None of that code writes the output buffer, the
  statistics, \<open>max_offset\<close> or \<open>flags\<close>.
\<close>

type_synonym parser =
  "salvador_compressor \<Rightarrow> (int \<Rightarrow> byte) \<Rightarrow> int \<Rightarrow> int \<Rightarrow> int \<Rightarrow> int \<Rightarrow>
   (int \<Rightarrow> salvador_final_match) option"

definition salvador_optimize_and_write_block ::
  "(int \<Rightarrow> salvador_final_match) \<Rightarrow> salvador_compressor \<Rightarrow> (int \<Rightarrow> byte) \<Rightarrow> int \<Rightarrow> int \<Rightarrow>
   bitwriter \<Rightarrow> int \<Rightarrow> int \<Rightarrow> int \<Rightarrow> int \<Rightarrow> wb_result" where
  "salvador_optimize_and_write_block best_match pCompressor pInWindow' nPreviousBlockSize nInDataSize
     w nMaxOutDataSize' nFinalLiterals' nCurRepMatchOffset nBlockFlags' =
     salvador_write_block pCompressor best_match pInWindow' nPreviousBlockSize
       (nPreviousBlockSize + nInDataSize) (w\<lparr>nOutOffset := 0\<rparr>) nMaxOutDataSize'
       nFinalLiterals' nCurRepMatchOffset nBlockFlags'"

definition salvador_compressor_shrink_block ::
  "parser \<Rightarrow> salvador_compressor \<Rightarrow> (int \<Rightarrow> byte) \<Rightarrow> int \<Rightarrow> int \<Rightarrow>
   bitwriter \<Rightarrow> int \<Rightarrow> int \<Rightarrow> int \<Rightarrow> int \<Rightarrow> wb_result" where
  "salvador_compressor_shrink_block parse pCompressor pInWindow' nPreviousBlockSize nInDataSize
     w nMaxOutDataSize' nFinalLiterals' nCurRepMatchOffset nBlockFlags' =
     (case parse pCompressor pInWindow' nPreviousBlockSize nInDataSize nCurRepMatchOffset nBlockFlags' of
        None \<Rightarrow> \<lparr>ret = - 1, out = w, final_literals = nFinalLiterals',
                  rep_match_offset = nCurRepMatchOffset, stats_out = stats pCompressor\<rparr>
      | Some best_match \<Rightarrow>
          salvador_optimize_and_write_block best_match pCompressor pInWindow' nPreviousBlockSize
            nInDataSize w nMaxOutDataSize' nFinalLiterals' nCurRepMatchOffset nBlockFlags')"

text \<open>
  \<open>size_t\<close> is modelled as \<open>nat\<close> below \<open>2 ^ 64\<close>, with the wrap-around written out; the
  cast \<open>(int)\<close> of a \<open>size_t\<close> keeps the low 32 bits as a two's complement value.
\<close>

definition int_of_size_t :: "nat \<Rightarrow> int" where
  "int_of_size_t n = (let m = int n mod 4294967296 in if m < 2147483648 then m else m - 4294967296)"

definition size_t_of_int :: "int \<Rightarrow> nat" where
  "size_t_of_int x = nat (x mod 18446744073709551616)"

text \<open>
  Modelled from the spec: \<open>BLOCK_SIZE\<close> is defined in format.h, which is not among the
  sources; the spec gives no number for it ("block_size: clamped into [1024, BLOCK_SIZE]")
  but has 65 536 bytes parsed as one block. No theorem below depends on the value.
\<close>

definition BLOCK_SIZE :: int where
  "BLOCK_SIZE = 65536"

definition salvador_get_max_compressed_size :: "nat \<Rightarrow> nat" where
  "salvador_get_max_compressed_size nInputSize =
     (((nInputSize + 65535) mod 18446744073709551616) div 65536 * 128 + nInputSize)
       mod 18446744073709551616"

text \<open>The statistics after salvador_compressor_init.\<close>

definition init_stats :: salvador_stats where
  "init_stats =
     \<lparr>min_literals = 0, max_literals = 0, total_literals = 0, literals_divisor = 0,
      num_rep_matches = 0, min_offset = - 1, max_offset_stat = 0, total_offsets = 0,
      min_match_len = - 1, max_match_len = 0, total_match_lens = 0, match_divisor = 0,
      min_rle1_len = - 1, max_rle1_len = 0, total_rle1_lens = 0, rle1_divisor = 0,
      min_rle2_len = - 1, max_rle2_len = 0, total_rle2_lens = 0, rle2_divisor = 0,
      safe_dist = 0, commands_divisor = 0\<rparr>"

text \<open>The variables of salvador_compress that change in its loop.\<close>

record compress_state =
  compressor :: salvador_compressor
  pOutBuffer :: "int \<Rightarrow> byte"
  nOriginalSize :: nat
  nCompressedSize :: nat
  nError :: int
  nPreviousBlockSize_d :: int
  nNumBlocks :: int
  nCurBitsOffset_d :: int
  nCurBitShift_d :: int
  nCurFinalLiterals :: int
  nBlockFlags_d :: int
  nCurRepMatchOffset_d :: int

text \<open>
  One turn of the loop \<open>while (nOriginalSize < nInputSize && !nError)\<close>. The block is
  written at \<open>pOutBuffer + nCompressedSize\<close>, so the emitter sees the buffer shifted by
  \<open>nCompressedSize\<close>; the progress callback does not touch the state and is left out.
\<close>

definition compress_iter ::
  "parser \<Rightarrow> (int \<Rightarrow> byte) \<Rightarrow> nat \<Rightarrow> nat \<Rightarrow> int \<Rightarrow> int \<Rightarrow> compress_state \<Rightarrow> compress_state" where
  "compress_iter parse pInputData nInputSize nMaxOutBufferSize nBlockSize nMaxOutBlockSize cs =
     (let nInDataSize0 = int_of_size_t (size_t_of_int (int nInputSize - int (nOriginalSize cs)));
          nInDataSize = (if nInDataSize0 > nBlockSize then nBlockSize else nInDataSize0)
      in
      if nInDataSize > 0 then
        (let nOutDataEnd0 = int_of_size_t (size_t_of_int (int nMaxOutBufferSize - int (nCompressedSize cs)));
             nOutDataEnd = (if nOutDataEnd0 > nMaxOutBlockSize then nMaxOutBlockSize else nOutDataEnd0);
             nBlockFlags1 = (if size_t_of_int (int (nOriginalSize cs) + nInDataSize) \<ge> nInputSize
                             then nBlockFlags_d cs OR 2 else nBlockFlags_d cs);
             r = salvador_compressor_shrink_block parse (compressor cs)
                   (\<lambda>k. pInputData (int (nOriginalSize cs) - nPreviousBlockSize_d cs + k))
                   (nPreviousBlockSize_d cs) nInDataSize
                   \<lparr>pOutData = (\<lambda>k. pOutBuffer cs (int (nCompressedSize cs) + k)), nOutOffset = 0,
                    nCurBitsOffset = nCurBitsOffset_d cs, nCurBitShift = nCurBitShift_d cs\<rparr>
                   nOutDataEnd (nCurFinalLiterals cs) (nCurRepMatchOffset_d cs) nBlockFlags1;
             cs1 = cs\<lparr>compressor := (compressor cs)\<lparr>stats := stats_out r\<rparr>,
                      pOutBuffer := (\<lambda>a. pOutData (out r) (a - int (nCompressedSize cs))),
                      nCurBitsOffset_d := nCurBitsOffset (out r),
                      nCurBitShift_d := nCurBitShift (out r),
                      nCurFinalLiterals := final_literals r,
                      nCurRepMatchOffset_d := rep_match_offset r,
                      nBlockFlags_d := nBlockFlags1 AND NOT 1\<rparr>;
             cs2 = (if ret r \<ge> 0 \<and> final_literals r \<ge> 0 \<and> final_literals r < nInDataSize then
                      cs1\<lparr>nOriginalSize :=
                             size_t_of_int (int (nOriginalSize cs) + (nInDataSize - final_literals r)),
                          nCurFinalLiterals := 0,
                          nCompressedSize := size_t_of_int (int (nCompressedSize cs) + ret r),
                          nCurBitsOffset_d := (if nCurBitsOffset (out r) \<noteq> INT_MIN
                                               then nCurBitsOffset (out r) - ret r
                                               else nCurBitsOffset (out r)),
                          nPreviousBlockSize_d := nInDataSize - final_literals r\<rparr>
                    else cs1\<lparr>nError := - 1, nPreviousBlockSize_d := nInDataSize\<rparr>)
         in cs2\<lparr>nNumBlocks := nNumBlocks cs2 + 1\<rparr>)
      else cs)"

partial_function (option) compress_loop ::
  "parser \<Rightarrow> (int \<Rightarrow> byte) \<Rightarrow> nat \<Rightarrow> nat \<Rightarrow> int \<Rightarrow> int \<Rightarrow> compress_state \<Rightarrow> compress_state option" where
  "compress_loop parse pInputData nInputSize nMaxOutBufferSize nBlockSize nMaxOutBlockSize cs =
     (if nOriginalSize cs < nInputSize \<and> nError cs = 0
      then compress_loop parse pInputData nInputSize nMaxOutBufferSize nBlockSize nMaxOutBlockSize
             (compress_iter parse pInputData nInputSize nMaxOutBufferSize nBlockSize nMaxOutBlockSize cs)
      else Some cs)"

text \<open>
  What salvador_compress returns: the compressed size, or \<open>(size_t) -1\<close>, with the output
  buffer and the statistics stored through \<open>pStats\<close> (nothing is stored when the
  initialisation fails). \<open>nInitResult\<close> is the result of salvador_compressor_init, which is
  not zero when an allocation fails. A loop that does not end gives \<open>None\<close>.
\<close>

record compress_result =
  compressed_size :: nat
  out_buffer :: "int \<Rightarrow> byte"
  pStats :: "salvador_stats option"

text \<open>
  The state at the head of the loop of salvador_compress, with line 1748:
  \<open>compressor.max_offset = nMaxWindowSize ? (int)nMaxWindowSize : MAX_OFFSET\<close>.
\<close>

definition compress_start :: "(int \<Rightarrow> byte) \<Rightarrow> int \<Rightarrow> nat \<Rightarrow> nat \<Rightarrow> compress_state" where
  "compress_start pOutBuffer' nFlags nMaxWindowSize nDictionarySize =
     \<lparr>compressor = \<lparr>max_offset = (if nMaxWindowSize \<noteq> 0 then int_of_size_t nMaxWindowSize
                                    else MAX_OFFSET),
                     flags = nFlags, stats = init_stats\<rparr>,
      pOutBuffer = pOutBuffer',
      nOriginalSize = (if nDictionarySize \<noteq> 0
                       then size_t_of_int (int_of_size_t nDictionarySize) else 0),
      nCompressedSize = 0, nError = 0,
      nPreviousBlockSize_d = (if nDictionarySize \<noteq> 0 then int_of_size_t nDictionarySize else 0),
      nNumBlocks = 0, nCurBitsOffset_d = INT_MIN, nCurBitShift_d = 0,
      nCurFinalLiterals = 0, nBlockFlags_d = 1, nCurRepMatchOffset_d = 1\<rparr>"

definition salvador_compress ::
  "parser \<Rightarrow> int \<Rightarrow> (int \<Rightarrow> byte) \<Rightarrow> (int \<Rightarrow> byte) \<Rightarrow> nat \<Rightarrow> nat \<Rightarrow> int \<Rightarrow> nat \<Rightarrow> nat \<Rightarrow>
   compress_result option" where
  "salvador_compress parse nInitResult pInputData pOutBuffer' nInputSize nMaxOutBufferSize nFlags
     nMaxWindowSize nDictionarySize =
     (let nBlockSize = (if int nInputSize < BLOCK_SIZE
                        then (if nInputSize < 1024 then 1024 else int_of_size_t nInputSize)
                        else BLOCK_SIZE);
          nMaxOutBlockSize = int_of_size_t (salvador_get_max_compressed_size (size_t_of_int nBlockSize))
      in
      if nInitResult \<noteq> 0
      then Some \<lparr>compressed_size = size_t_of_int (- 1), out_buffer = pOutBuffer', pStats = None\<rparr>
      else
        case compress_loop parse pInputData nInputSize nMaxOutBufferSize nBlockSize nMaxOutBlockSize
               (compress_start pOutBuffer' nFlags nMaxWindowSize nDictionarySize) of
          None \<Rightarrow> None
        | Some cs \<Rightarrow>
            Some \<lparr>compressed_size = (if nError cs \<noteq> 0 then size_t_of_int (- 1) else nCompressedSize cs),
                  out_buffer = pOutBuffer cs, pStats = Some (stats (compressor cs))\<rparr>)"

subsection \<open>Match supplementation before the first parse\<close>

text \<open>
  The first supplementation pass of salvador_optimize_and_write_block (lines 1346 to 1397).
  The match table and the depth table are flat arrays with \<open>1 << MATCHES_PER_INDEX_SHIFT\<close>
  entries for each block position; the shift comes from shrink.h, which is not among the
  sources, and is a parameter \<open>sh\<close> here. The tables arrive filled by the match finder.
\<close>

record salvador_match =
  length_m :: int
  offset_m :: int

record match_tables =
  match :: "int \<Rightarrow> salvador_match"
  match_depth :: "int \<Rightarrow> int"

record chains =
  first_offset_for_byte :: "int \<Rightarrow> int"
  next_offset_for_pos :: "int \<Rightarrow> int"

text \<open>The key \<open>pInWindow[nPosition] | (pInWindow[nPosition + 1] << 8)\<close> of a position.\<close>

definition byte_pair :: "(int \<Rightarrow> byte) \<Rightarrow> int \<Rightarrow> int" where
  "byte_pair pInWindow' nPosition = uint (pInWindow' nPosition) OR push_bit 8 (uint (pInWindow' (nPosition + 1)))"

text \<open>After the two calls of memset with \<open>0xff\<close>: every entry is \<open>-1\<close>.\<close>

definition chains_init :: chains where
  "chains_init = \<lparr>first_offset_for_byte = (\<lambda>k. - 1), next_offset_for_pos = (\<lambda>k. - 1)\<rparr>"

text \<open>The loop of lines 1349 to 1352 that links the positions with the same two bytes.\<close>

function build_chains :: "(int \<Rightarrow> byte) \<Rightarrow> int \<Rightarrow> int \<Rightarrow> int \<Rightarrow> chains \<Rightarrow> chains" where
  "build_chains pInWindow' nPreviousBlockSize nEndOffset' nPosition ch =
     (if nPosition < nEndOffset' - 1 then
        build_chains pInWindow' nPreviousBlockSize nEndOffset' (nPosition + 1)
          (ch\<lparr>next_offset_for_pos := (next_offset_for_pos ch)
                  (nPosition - nPreviousBlockSize :=
                     first_offset_for_byte ch (byte_pair pInWindow' nPosition)),
              first_offset_for_byte := (first_offset_for_byte ch)
                  (byte_pair pInWindow' nPosition := nPosition)\<rparr>)
      else ch)"
  by pat_completeness auto
termination
  by (relation "measure (\<lambda>(w, p, e, n, c). nat (e - n))") auto

declare build_chains.simps [simp del]

text \<open>\<open>while (m < 15 && match[m].length) m++\<close>.\<close>

function count_matches :: "(int \<Rightarrow> salvador_match) \<Rightarrow> int \<Rightarrow> int \<Rightarrow> int" where
  "count_matches mt base m =
     (if m < 15 \<and> length_m (mt (base + m)) \<noteq> 0 then count_matches mt base (m + 1) else m)"
  by pat_completeness auto
termination
  by (relation "measure (\<lambda>(mt, b, m). nat (15 - m))") auto

declare count_matches.simps [simp del]

text \<open>The search of lines 1370 to 1376 among the entries below \<open>m\<close>.\<close>

function already_exists :: "match_tables \<Rightarrow> int \<Rightarrow> int \<Rightarrow> int \<Rightarrow> int \<Rightarrow> bool" where
  "already_exists t base m nMatchOffset nExistingMatchIdx =
     (if nExistingMatchIdx < m then
        (if offset_m (match t (base + nExistingMatchIdx)) = nMatchOffset \<or>
            offset_m (match t (base + nExistingMatchIdx))
              - (match_depth t (base + nExistingMatchIdx) AND 0x3fff) = nMatchOffset
         then True
         else already_exists t base m nMatchOffset (nExistingMatchIdx + 1))
      else False)"
  by pat_completeness auto
termination
  by (relation "measure (\<lambda>(t, b, m, k, i). nat (m - i))") auto

declare already_exists.simps [simp del]

text \<open>The two loops of lines 1380 to 1383 that measure the match, four bytes and one byte at a time.\<close>

function match_len_by4 :: "(int \<Rightarrow> byte) \<Rightarrow> int \<Rightarrow> int \<Rightarrow> int \<Rightarrow> int \<Rightarrow> int" where
  "match_len_by4 pInWindow' nMatchPos nPosition nEndOffset' nMatchLen =
     (if nMatchLen < 128 \<and> nPosition + nMatchLen + 4 < nEndOffset' \<and>
         (\<forall>k \<in> {0, 1, 2, 3}. pInWindow' (nMatchPos + nMatchLen + k) = pInWindow' (nPosition + nMatchLen + k))
      then match_len_by4 pInWindow' nMatchPos nPosition nEndOffset' (nMatchLen + 4)
      else nMatchLen)"
  by pat_completeness auto
termination
  by (relation "measure (\<lambda>(w, q, p, e, l). nat (128 - l))") auto

declare match_len_by4.simps [simp del]

function match_len_by1 :: "(int \<Rightarrow> byte) \<Rightarrow> int \<Rightarrow> int \<Rightarrow> int \<Rightarrow> int \<Rightarrow> int" where
  "match_len_by1 pInWindow' nMatchPos nPosition nEndOffset' nMatchLen =
     (if nMatchLen < 128 \<and> nPosition + nMatchLen < nEndOffset' \<and>
         pInWindow' (nMatchPos + nMatchLen) = pInWindow' (nPosition + nMatchLen)
      then match_len_by1 pInWindow' nMatchPos nPosition nEndOffset' (nMatchLen + 1)
      else nMatchLen)"
  by pat_completeness auto
termination
  by (relation "measure (\<lambda>(w, q, p, e, l). nat (128 - l))") auto

declare match_len_by1.simps [simp del]

text \<open>
  The walk along the chain of one position (lines 1363 to 1396). The chain may be any
  array here, so the walk is a partial function: \<open>None\<close> stands for a walk without end.
\<close>

record supplement_state =
  tables :: match_tables
  m_idx :: int
  nInserted :: int

partial_function (option) supplement_walk ::
  "(int \<Rightarrow> byte) \<Rightarrow> (int \<Rightarrow> int) \<Rightarrow> int \<Rightarrow> int \<Rightarrow> int \<Rightarrow> int \<Rightarrow> int \<Rightarrow> int \<Rightarrow>
   supplement_state \<Rightarrow> supplement_state option" where
  "supplement_walk pInWindow' nxt nPreviousBlockSize nEndOffset' nMaxOff base nPosition nMatchPos st =
     (if m_idx st < 15 \<and> nMatchPos \<ge> 0 then
        (let nMatchOffset = nPosition - nMatchPos in
         if nMatchOffset \<le> nMaxOff then
           (if \<not> already_exists (tables st) base (m_idx st) nMatchOffset 0 then
              (let nMatchLen = match_len_by1 pInWindow' nMatchPos nPosition nEndOffset'
                                 (match_len_by4 pInWindow' nMatchPos nPosition nEndOffset' 2);
                   t = tables st;
                   st' = st\<lparr>tables := t\<lparr>match := (match t)(base + m_idx st :=
                                                 \<lparr>length_m = nMatchLen, offset_m = nMatchOffset\<rparr>),
                                           match_depth := (match_depth t)(base + m_idx st := 0x4000)\<rparr>,
                            m_idx := m_idx st + 1,
                            nInserted := nInserted st + 1\<rparr>
               in if nInserted st' \<ge> 15 then Some st'
                  else supplement_walk pInWindow' nxt nPreviousBlockSize nEndOffset' nMaxOff base nPosition
                         (nxt (nMatchPos - nPreviousBlockSize)) st')
            else supplement_walk pInWindow' nxt nPreviousBlockSize nEndOffset' nMaxOff base nPosition
                   (nxt (nMatchPos - nPreviousBlockSize)) st)
         else Some st)
      else Some st)"

declare supplement_walk.simps [code]

text \<open>The body of the loop over the positions (lines 1355 to 1396).\<close>

definition supplement_position ::
  "nat \<Rightarrow> (int \<Rightarrow> byte) \<Rightarrow> (int \<Rightarrow> int) \<Rightarrow> int \<Rightarrow> int \<Rightarrow> int \<Rightarrow> int \<Rightarrow> match_tables \<Rightarrow>
   supplement_state option" where
  "supplement_position sh pInWindow' nxt nPreviousBlockSize nEndOffset' nMaxOff nPosition t =
     (let base = push_bit sh (nPosition - nPreviousBlockSize) in
      supplement_walk pInWindow' nxt nPreviousBlockSize nEndOffset' nMaxOff base nPosition
        (nxt (nPosition - nPreviousBlockSize))
        \<lparr>tables = t, m_idx = count_matches (match t) base 0, nInserted = 0\<rparr>)"

text \<open>The loop over the positions \<open>nPreviousBlockSize + 1 .. nEndOffset - 2\<close>.\<close>

function supplement_positions ::
  "nat \<Rightarrow> (int \<Rightarrow> byte) \<Rightarrow> (int \<Rightarrow> int) \<Rightarrow> int \<Rightarrow> int \<Rightarrow> int \<Rightarrow> int \<Rightarrow> match_tables \<Rightarrow>
   match_tables option" where
  "supplement_positions sh pInWindow' nxt nPreviousBlockSize nEndOffset' nMaxOff nPosition t =
     (if nPosition < nEndOffset' - 1 then
        (case supplement_position sh pInWindow' nxt nPreviousBlockSize nEndOffset' nMaxOff nPosition t of
           None \<Rightarrow> None
         | Some st \<Rightarrow> supplement_positions sh pInWindow' nxt nPreviousBlockSize nEndOffset' nMaxOff
                        (nPosition + 1) (tables st))
      else Some t)"
  by pat_completeness auto
termination
  by (relation "measure (\<lambda>(sh, w, n, p, e, mo, pos, t). nat (e - pos))") auto

declare supplement_positions.simps [simp del]

definition supplement_small_matches ::
  "nat \<Rightarrow> (int \<Rightarrow> byte) \<Rightarrow> int \<Rightarrow> int \<Rightarrow> int \<Rightarrow> match_tables \<Rightarrow> match_tables option" where
  "supplement_small_matches sh pInWindow' nPreviousBlockSize nInDataSize nMaxOff t =
     (let nEndOffset' = nPreviousBlockSize + nInDataSize;
          ch = build_chains pInWindow' nPreviousBlockSize nEndOffset' nPreviousBlockSize chains_init
      in supplement_positions sh pInWindow' (next_offset_for_pos ch) nPreviousBlockSize nEndOffset'
           nMaxOff (nPreviousBlockSize + 1) t)"

subsection \<open>The gamma code as a bit sequence\<close>

text \<open>
  The Elias-gamma code in the words of the spec (section 4.1): for a value \<open>v\<close>, with \<open>b\<close>
  the number of bits of \<open>v\<close> after its leading 1, \<open>b\<close> pairs of a 0 and the next data
  bit of \<open>v\<close> from high to low, then a terminating 1; the inverted mode inverts each data
  bit. The functions of the code are compared with it below.
\<close>

function ilog2 :: "int \<Rightarrow> nat" where
  "ilog2 v = (if v < 2 then 0 else Suc (ilog2 (v div 2)))"
  by pat_completeness auto
termination
  by (relation "measure nat") auto

declare ilog2.simps [simp del]

fun gamma_pairs :: "bool \<Rightarrow> int \<Rightarrow> nat \<Rightarrow> bool list" where
  "gamma_pairs iv v 0 = []"
| "gamma_pairs iv v (Suc b) = False # (bit v b \<noteq> iv) # gamma_pairs iv v b"

definition elias_gamma_bits :: "bool \<Rightarrow> int \<Rightarrow> bool list" where
  "elias_gamma_bits iv v = gamma_pairs iv v (ilog2 v) @ [True]"

text \<open>The value that a decoder reads back from a gamma code: it starts from 1.\<close>

fun gamma_value :: "bool \<Rightarrow> int \<Rightarrow> bool list \<Rightarrow> int" where
  "gamma_value iv acc (False # d # bs) = gamma_value iv (2 * acc + of_bool (d \<noteq> iv)) bs"
| "gamma_value iv acc bs = acc"

text \<open>Writing a sequence of bits, one call of salvador_write_bits for each.\<close>

fun write_bit_seq :: "bitwriter \<Rightarrow> int \<Rightarrow> bool list \<Rightarrow> bitwriter" where
  "write_bit_seq w m [] = w"
| "write_bit_seq w m (b # bs) = write_bit_seq (salvador_write_bits w m (of_bool b) 1) m bs"

subsection \<open>Concrete inputs for the examples\<close>

definition w_empty :: bitwriter where
  "w_empty = \<lparr>pOutData = (\<lambda>k. 0), nOutOffset = 0, nCurBitsOffset = INT_MIN, nCurBitShift = 0\<rparr>"

definition ex_compressor :: "int \<Rightarrow> salvador_compressor" where
  "ex_compressor fl = \<lparr>max_offset = MAX_OFFSET, flags = fl, stats = init_stats\<rparr>"

definition ex_window :: "byte list \<Rightarrow> int \<Rightarrow> byte" where
  "ex_window bs k = (if 0 \<le> k \<and> k < int (length bs) then bs ! nat k else 0)"

text \<open>A parse from a list of pairs (length, offset), one for each position from 0.\<close>

definition ex_parse :: "(int \<times> int) list \<Rightarrow> int \<Rightarrow> salvador_final_match" where
  "ex_parse ms k = (if 0 \<le> k \<and> k < int (length ms)
                    then \<lparr>length_fm = fst (ms ! nat k), offset_fm = snd (ms ! nat k)\<rparr>
                    else \<lparr>length_fm = 0, offset_fm = 0\<rparr>)"

text \<open>The bytes that a call has emitted: the first \<open>ret\<close> bytes of the output buffer.\<close>

definition out_bytes :: "wb_result \<Rightarrow> byte list" where
  "out_bytes r = map (\<lambda>k. pOutData (out r) (int k)) [0..<nat (ret r)]"

text \<open>
  The constants and the initial variables of a call of salvador_write_block on a first
  block that starts at position 0, with the default configuration and rep offset 1.
\<close>

definition ex_const ::
  "(int \<Rightarrow> salvador_final_match) \<Rightarrow> (int \<Rightarrow> byte) \<Rightarrow> int \<Rightarrow> int \<Rightarrow> int \<Rightarrow> wb_const" where
  "ex_const bm win e m fl =
     \<lparr>nMaxOffset = MAX_OFFSET, nIsInverted = 0, pBestMatch = bm, pInWindow = win,
      nStartOffset = 0, nEndOffset = e, nMaxOutDataSize = m, nBlockFlags = fl\<rparr>"

definition ex_state :: "bitwriter \<Rightarrow> wb_state" where
  "ex_state w = wb_init (ex_compressor 0) 0 w 0 1 1"

text \<open>An output buffer in which the low byte of an offset has just been written at index 0.\<close>

definition w_low_byte :: bitwriter where
  "w_low_byte = \<lparr>pOutData = (\<lambda>k. 0)(0 := 0xfe), nOutOffset = 1, nCurBitsOffset = INT_MIN,
                 nCurBitShift = 0\<rparr>"



text \<open>
  The window \<open>41 42 41 42 ...\<close>, and the match table with one entry at position 4: the match of
  offset 2 and length 132 that reaches the end of a block of 136 bytes.
\<close>

definition ex_window_ab :: "int \<Rightarrow> byte" where
  "ex_window_ab k = (if k mod 2 = 0 then 0x41 else 0x42)"

definition ex_tables :: match_tables where
  "ex_tables = \<lparr>match = (\<lambda>k. \<lparr>length_m = 0, offset_m = 0\<rparr>)(256 := \<lparr>length_m = 132, offset_m = 2\<rparr>),
                match_depth = (\<lambda>k. 0)\<rparr>"

definition no_parser :: parser where
  "no_parser = (\<lambda>c w p n r f. None)"

subsection \<open>Predicates used in the statements\<close>

text \<open>
  The first \<open>n\<close> turns of the loop of salvador_write_block: \<open>Inr s\<close> when they all pass,
  with \<open>s\<close> the state at the head of the next turn, and \<open>Inl\<close> when one of them returns
  \<open>-1\<close>. It names the states that the loop reaches.
\<close>

fun wb_turns :: "nat \<Rightarrow> wb_const \<Rightarrow> wb_state \<Rightarrow> wb_state + wb_state" where
  "wb_turns 0 c s = Inr s"
| "wb_turns (Suc n) c s =
     (if i_pos s < nEndOffset c then
        (case wb_step c s of Inl e \<Rightarrow> Inl e | Inr s' \<Rightarrow> wb_turns n c s')
      else Inr s)"

text \<open>
  A byte of the output buffer that later bit writes leave alone: it lies below the write
  index and it is not the byte that is open for bits.
\<close>

definition untouched :: "int \<Rightarrow> bitwriter \<Rightarrow> bool" where
  "untouched k w = (k < nOutOffset w \<and> (nCurBitsOffset w = INT_MIN \<or> k \<noteq> nCurBitsOffset w))"

text \<open>
  After \<open>n\<close> turns the loop is at the head of a turn that emits a match command, in a state
  with the property \<open>P\<close>.
\<close>

definition reaches_match :: "nat \<Rightarrow> wb_const \<Rightarrow> wb_state \<Rightarrow> (wb_state \<Rightarrow> bool) \<Rightarrow> bool" where
  "reaches_match n c s0 P =
     (case wb_turns n c s0 of
        Inl e \<Rightarrow> False
      | Inr s \<Rightarrow> i_pos s < nEndOffset c \<and> wb_is_match c s \<and> P s)"

text \<open>The offset of the match at the current position is outside the permitted range.\<close>

definition bad_offset :: "wb_const \<Rightarrow> wb_state \<Rightarrow> bool" where
  "bad_offset c s =
     (offset_fm (pBestMatch c (i_pos s)) < MIN_OFFSET \<or>
      min (nMaxOffset c) MAX_OFFSET < offset_fm (pBestMatch c (i_pos s)))"

text \<open>The match at the current position is written as a rep match (the test of line 1188).\<close>

definition emits_rep :: "wb_const \<Rightarrow> wb_state \<Rightarrow> bool" where
  "emits_rep c s =
     (offset_fm (pBestMatch c (i_pos s)) = nRepMatchOffset s \<and> nNumLiterals s \<noteq> 0)"



text \<open>The state that a step ends in, whether it returned \<open>-1\<close> or not.\<close>

definition st_of :: "wb_state + wb_state \<Rightarrow> wb_state" where
  "st_of r = (case r of Inl e \<Rightarrow> e | Inr s \<Rightarrow> s)"

text \<open>The statistic \<open>min_match_len\<close> is unset or at least 1.\<close>

definition mml_ok :: "salvador_stats \<Rightarrow> bool" where
  "mml_ok st = (min_match_len st = - 1 \<or> 1 \<le> min_match_len st)"




subsection \<open>The match commands in the words of the spec\<close>

text \<open>
  The bitstream format of the spec, to be compared with what the emitter writes. A rep match
  of length \<open>L\<close> is the token 0 and the gamma code of \<open>L\<close>.
\<close>

definition spec_rep_command :: "bitwriter \<Rightarrow> int \<Rightarrow> int \<Rightarrow> bitwriter" where
  "spec_rep_command w m L = write_bit_seq w m (False # elias_gamma_bits False L)"

text \<open>
  A match with offset of length \<open>L\<close> is the token 1, the gamma code (inverted or not) of
  the high part \<open>((offset - 1) >> 7) + 1\<close>, one byte \<open>(255 - ((offset - 1) & 0x7f)) << 1\<close>
  whose least significant bit carries the first bit of the gamma code of \<open>L - 1\<close>, and the
  other bits of that code.
\<close>

definition spec_offset_command :: "bitwriter \<Rightarrow> int \<Rightarrow> bool \<Rightarrow> int \<Rightarrow> int \<Rightarrow> bitwriter" where
  "spec_offset_command w m iv off L =
     (let w1 = write_bit_seq w m (True # elias_gamma_bits iv (((off - 1) div 128) + 1));
          g = elias_gamma_bits False (L - 1);
          w2 = w1\<lparr>pOutData := (pOutData w1)(nOutOffset w1 :=
                                  (low_offset_byte off AND 0xfe) OR of_bool (hd g)),
                  nOutOffset := nOutOffset w1 + 1\<rparr>
      in write_bit_seq w2 m (tl g))"

subsection \<open>Concrete blocks and a concrete parser\<close>

text \<open>
  A parser that makes every position a literal, and three first-and-last blocks with a
  capacity of 16 bytes: \<open>AAA\<close> as a literal and a match of length 2 at offset 1, \<open>ABAB\<close>
  as two literals and a match of length 2 at offset 2, \<open>AAB\<close> as a literal, a match of
  length 1 at offset 1 and a literal. \<open>ex_after n c\<close> is the state of the emitter after
  \<open>n\<close> turns of its loop on the block \<open>c\<close>.
\<close>

definition literal_parser :: parser where
  "literal_parser = (\<lambda>c w p n r f. Some (\<lambda>k. \<lparr>length_fm = 0, offset_fm = 0\<rparr>))"

definition ex_aaa :: wb_const where
  "ex_aaa = wb_consts (ex_compressor 0) (ex_parse [(0, 0), (2, 1), (0, 0)])
              (ex_window [0x41, 0x41, 0x41]) 0 3 16 3"

definition ex_abab :: wb_const where
  "ex_abab = wb_consts (ex_compressor 0) (ex_parse [(0, 0), (0, 0), (2, 2), (0, 0)])
               (ex_window [0x41, 0x42, 0x41, 0x42]) 0 4 16 3"

definition ex_start :: wb_state where
  "ex_start = wb_init (ex_compressor 0) 0 w_empty 0 1 3"

definition ex_after :: "nat \<Rightarrow> wb_const \<Rightarrow> wb_state" where
  "ex_after n c = st_of (wb_turns n c ex_start)"

definition ex_aab :: wb_const where
  "ex_aab = wb_consts (ex_compressor 0) (ex_parse [(0, 0), (1, 1), (0, 0)])
              (ex_window [0x41, 0x41, 0x42]) 0 3 16 3"

subsection \<open>The arrival table of salvador_optimize_forward\<close>

text \<open>
  Modelled from the spec: the struct \<open>salvador_arrival\<close> is declared in shrink.h, which is
  not among the sources. The field names are those that shrink.c uses; the spec lists them as
  \<open>{cost, from_pos, from_slot (0 = empty), match_len, num_literals, rep_offset, rep_pos,
  score}\<close>. The fields are integers here: a cost is at most \<open>0x40000000\<close> plus the few bits of
  one command and a score grows by at most 4 for each command of a block, so that no field
  wraps. The table is the array \<open>arrival\<close>, indexed as in the code by
  \<open>position * NARRIVALS_PER_POSITION + slot\<close>.
\<close>

record salvador_arrival =
  cost :: int
  from_pos :: int
  from_slot :: int
  match_len :: int
  num_literals :: int
  rep_offset :: int
  rep_pos :: int
  score :: int

text \<open>
  The first scan of an insertion, \<open>for (n = 0; pDestSlots[n].cost < nCodingChoiceCost; n++)\<close>,
  which stops with \<open>exists = 1\<close> on a slot of the same rep offset. The loop has no bound of its
  own; the result is the slot reached and \<open>exists\<close>, and \<open>None\<close> if the scan does not end.
\<close>

partial_function (option) scan_cheaper ::
  "(int \<Rightarrow> salvador_arrival) \<Rightarrow> int \<Rightarrow> int \<Rightarrow> int \<Rightarrow> int \<Rightarrow> (int \<times> bool) option" where
  "scan_cheaper pDestSlots base nCodingChoiceCost nRepOffset n =
     (if cost (pDestSlots (base + n)) < nCodingChoiceCost then
        (if rep_offset (pDestSlots (base + n)) = nRepOffset then Some (n, True)
         else scan_cheaper pDestSlots base nCodingChoiceCost nRepOffset (n + 1))
      else Some (n, False))"

declare scan_cheaper.simps [code]

text \<open>
  The second scan, over the slots of the same cost whose score is not above that of the
  candidate.
\<close>

partial_function (option) scan_equal ::
  "(int \<Rightarrow> salvador_arrival) \<Rightarrow> int \<Rightarrow> int \<Rightarrow> int \<Rightarrow> int \<Rightarrow> int \<Rightarrow> (int \<times> bool) option" where
  "scan_equal pDestSlots base nCodingChoiceCost nScore nRepOffset n =
     (if cost (pDestSlots (base + n)) = nCodingChoiceCost \<and> nScore \<ge> score (pDestSlots (base + n)) then
        (if rep_offset (pDestSlots (base + n)) = nRepOffset then Some (n, True)
         else scan_equal pDestSlots base nCodingChoiceCost nScore nRepOffset (n + 1))
      else Some (n, False))"

declare scan_equal.simps [code]

text \<open>The third scan (\<open>nn\<close>), over the slots of the same cost from the insertion point on.\<close>

function scan_same_cost ::
  "(int \<Rightarrow> salvador_arrival) \<Rightarrow> int \<Rightarrow> int \<Rightarrow> int \<Rightarrow> int \<Rightarrow> int \<Rightarrow> bool" where
  "scan_same_cost pDestSlots base nArrivalsPerPosition nCodingChoiceCost nRepOffset nn =
     (if nn < nArrivalsPerPosition \<and> cost (pDestSlots (base + nn)) = nCodingChoiceCost then
        (if rep_offset (pDestSlots (base + nn)) = nRepOffset then True
         else scan_same_cost pDestSlots base nArrivalsPerPosition nCodingChoiceCost nRepOffset (nn + 1))
      else False)"
  by pat_completeness auto
termination
  by (relation "measure (\<lambda>(d, b, k, c, r, nn). nat (k - nn))") auto

declare scan_same_cost.simps [simp del]

text \<open>
  The scan for the slot \<open>z\<close> that the insertion gives up: the first slot from \<open>n\<close> on that is
  empty, that has the rep offset of the candidate, or that is the last one.
\<close>

function scan_victim ::
  "(int \<Rightarrow> salvador_arrival) \<Rightarrow> int \<Rightarrow> int \<Rightarrow> int \<Rightarrow> int \<Rightarrow> int" where
  "scan_victim pDestSlots base nArrivalsPerPosition nRepOffset z =
     (if z < nArrivalsPerPosition - 1 \<and> from_slot (pDestSlots (base + z)) \<noteq> 0 then
        (if rep_offset (pDestSlots (base + z)) = nRepOffset then z
         else scan_victim pDestSlots base nArrivalsPerPosition nRepOffset (z + 1))
      else z)"
  by pat_completeness auto
termination
  by (relation "measure (\<lambda>(d, b, k, r, z). nat (k - z))") auto

declare scan_victim.simps [simp del]

text \<open>
  \<open>memmove(&pDestSlots[n + 1], &pDestSlots[n], sizeof(salvador_arrival) * (z - n))\<close>
  followed by the assignments to \<open>pDestSlots[n]\<close>.
\<close>

definition shift_in ::
  "(int \<Rightarrow> salvador_arrival) \<Rightarrow> int \<Rightarrow> int \<Rightarrow> int \<Rightarrow> salvador_arrival \<Rightarrow> (int \<Rightarrow> salvador_arrival)" where
  "shift_in arrival base n z a =
     (\<lambda>idx. if idx = base + n then a
            else if base + n < idx \<and> idx \<le> base + z then arrival (idx - 1)
            else arrival idx)"

text \<open>
  The insertion of a candidate \<open>a\<close> into the row that starts at \<open>base\<close>. The code has three
  copies of it, which differ in the slot \<open>cmp\<close> of the first test and in the bound \<open>nlim\<close> on
  \<open>n\<close>: \<open>nArrivalsPerPosition - 1\<close> and \<open>nArrivalsPerPosition\<close> for a literal (lines 359 to 418)
  and for a rep match (lines 614 to 673), \<open>nArrivalsPerPosition - 2\<close> and
  \<open>nArrivalsPerPosition - 1\<close> for a match with offset (lines 533 to 591).
\<close>

definition insert_arrival ::
  "int \<Rightarrow> int \<Rightarrow> int \<Rightarrow> (int \<Rightarrow> salvador_arrival) \<Rightarrow> int \<Rightarrow> salvador_arrival \<Rightarrow>
   (int \<Rightarrow> salvador_arrival) option" where
  "insert_arrival nArrivalsPerPosition cmp nlim arrival base a =
     (if cost a < cost (arrival (base + cmp)) \<or>
         (cost a = cost (arrival (base + cmp)) \<and> score a < score (arrival (base + cmp))) then
        (case scan_cheaper arrival base (cost a) (rep_offset a) 0 of
           None \<Rightarrow> None
         | Some (n, True) \<Rightarrow> Some arrival
         | Some (n, False) \<Rightarrow>
             (case scan_equal arrival base (cost a) (score a) (rep_offset a) n of
                None \<Rightarrow> None
              | Some (n', True) \<Rightarrow> Some arrival
              | Some (n', False) \<Rightarrow>
                  if n' < nlim then
                    (if scan_same_cost arrival base nArrivalsPerPosition (cost a) (rep_offset a) n'
                     then Some arrival
                     else Some (shift_in arrival base n'
                                  (scan_victim arrival base nArrivalsPerPosition (rep_offset a) n') a))
                  else Some arrival))
      else Some arrival)"

text \<open>
  The table after the initialisation of lines 328 to 335: everything zero, every cost
  \<open>0x40000000\<close>, and the first slot of the first position with \<open>from_slot = -1\<close> and the rep
  offset that the block starts with.
\<close>

definition empty_arrival :: salvador_arrival where
  "empty_arrival = \<lparr>cost = 0x40000000, from_pos = 0, from_slot = 0, match_len = 0,
                     num_literals = 0, rep_offset = 0, rep_pos = 0, score = 0\<rparr>"

definition arrivals_init :: "int \<Rightarrow> int \<Rightarrow> int \<Rightarrow> (int \<Rightarrow> salvador_arrival)" where
  "arrivals_init N nStartOffset' nCurRepMatchOffset =
     (\<lambda>idx. if idx = nStartOffset' * N
            then empty_arrival\<lparr>from_slot := - 1, rep_offset := nCurRepMatchOffset\<rparr>
            else empty_arrival)"

text \<open>
  The candidate that slot \<open>j\<close> of position \<open>i\<close> proposes for position \<open>i + 1\<close> (lines 346 to
  356 and 409 to 416). \<open>nModeSwitchPenalty\<close> is the constant 0.
\<close>

definition literal_arrival :: "int \<Rightarrow> int \<Rightarrow> salvador_arrival \<Rightarrow> salvador_arrival" where
  "literal_arrival i j cur =
     (let nPrevCost = cost cur AND 0x3fffffff;
          nNumLiterals' = num_literals cur + 1;
          nCodingChoiceCost =
            nPrevCost + 8
              - (if nNumLiterals' > 1 then salvador_get_literals_varlen_size (nNumLiterals' - 1) else 0)
              + salvador_get_literals_varlen_size nNumLiterals'
              + (if nNumLiterals' = 1 then 0 else 0)
      in \<lparr>cost = nCodingChoiceCost, from_pos = i, from_slot = j + 1, match_len = 0,
          num_literals = nNumLiterals', rep_offset = rep_offset cur, rep_pos = rep_pos cur,
          score = score cur + 1\<rparr>)"

text \<open>
  The candidate of a match with offset of length \<open>k\<close> (lines 500 to 531 and 581 to 588);
  \<open>nScorePenalty\<close> is 3 or 4, \<open>TOKEN_SIZE\<close> is 1 and \<open>MIN_ENCODED_MATCH_SIZE\<close> is 2.
\<close>

definition norep_arrival ::
  "int \<Rightarrow> int \<Rightarrow> int \<Rightarrow> int \<Rightarrow> int \<Rightarrow> salvador_arrival \<Rightarrow> salvador_arrival" where
  "norep_arrival i j nMatchOffset nScorePenalty k cur =
     (let nPrevCost = cost cur AND 0x3fffffff;
          nNoRepmatchOffsetCost = OFFSET_COST nMatchOffset + nPrevCost
                                    + (if num_literals cur = 0 then 0 else 0);
          nMatchLenCost = salvador_get_match_varlen_size_norep (k - 2) + 1
      in \<lparr>cost = nMatchLenCost + nNoRepmatchOffsetCost, from_pos = i, from_slot = j + 1,
          match_len = k, num_literals = 0, rep_offset = nMatchOffset, rep_pos = i,
          score = score cur + nScorePenalty\<rparr>)"

text \<open>The candidate of a rep match of length \<open>k\<close> (lines 600 to 612 and 663 to 670).\<close>

definition rep_arrival :: "int \<Rightarrow> int \<Rightarrow> int \<Rightarrow> salvador_arrival \<Rightarrow> salvador_arrival" where
  "rep_arrival i j k cur =
     (let nPrevCost = cost cur AND 0x3fffffff;
          nMatchLenCost = salvador_get_match_varlen_size_rep (k - 2) + 1
      in \<lparr>cost = nPrevCost + nMatchLenCost, from_pos = i, from_slot = j + 1,
          match_len = k, num_literals = 0, rep_offset = rep_offset cur, rep_pos = i,
          score = score cur + 2\<rparr>)"

text \<open>
  The three insertions, with \<open>N = NARRIVALS_PER_POSITION\<close> the length of a row and
  \<open>K = nArrivalsPerPosition\<close> the number of slots in use.
\<close>

definition insert_literal ::
  "int \<Rightarrow> int \<Rightarrow> (int \<Rightarrow> salvador_arrival) \<Rightarrow> int \<Rightarrow> int \<Rightarrow> (int \<Rightarrow> salvador_arrival) option" where
  "insert_literal N K arrival i j =
     insert_arrival K (K - 1) K arrival ((i + 1) * N) (literal_arrival i j (arrival (i * N + j)))"

definition insert_norep ::
  "int \<Rightarrow> int \<Rightarrow> (int \<Rightarrow> salvador_arrival) \<Rightarrow> int \<Rightarrow> int \<Rightarrow> int \<Rightarrow> int \<Rightarrow> int \<Rightarrow>
   (int \<Rightarrow> salvador_arrival) option" where
  "insert_norep N K arrival i j nMatchOffset nScorePenalty k =
     insert_arrival K (K - 2) (K - 1) arrival ((i + k) * N)
       (norep_arrival i j nMatchOffset nScorePenalty k (arrival (i * N + j)))"

definition insert_rep ::
  "int \<Rightarrow> int \<Rightarrow> (int \<Rightarrow> salvador_arrival) \<Rightarrow> int \<Rightarrow> int \<Rightarrow> int \<Rightarrow> (int \<Rightarrow> salvador_arrival) option" where
  "insert_rep N K arrival i j k =
     insert_arrival K (K - 1) K arrival ((i + k) * N) (rep_arrival i j k (arrival (i * N + j)))"

text \<open>
  The tables that the forward parse of a block \<open>[s, e)\<close> goes through. The parse starts from
  the initial table and, at a position \<open>i\<close> of the block, proposes candidates from non-empty
  slots \<open>j\<close> below \<open>K\<close> of position \<open>i\<close>: a literal for position \<open>i + 1\<close>, a match with offset
  of length \<open>k \<ge> 2\<close> and a rep match of length \<open>k \<ge> 1\<close> for position \<open>i + k\<close>, which the code
  keeps at or below \<open>e\<close>. Which candidates the code proposes, and in which order, depends on the
  match tables; the relation leaves that open, so that it holds of every table that any run
  goes through.
\<close>

inductive forward_reaches ::
  "int \<Rightarrow> int \<Rightarrow> int \<Rightarrow> int \<Rightarrow> int \<Rightarrow> (int \<Rightarrow> salvador_arrival) \<Rightarrow> bool"
  for N K s e r where
  start: "forward_reaches N K s e r (arrivals_init N s r)"
| literal: "forward_reaches N K s e r D \<Longrightarrow> s \<le> i \<Longrightarrow> i < e \<Longrightarrow> 0 \<le> j \<Longrightarrow> j < K \<Longrightarrow>
     from_slot (D (i * N + j)) \<noteq> 0 \<Longrightarrow> insert_literal N K D i j = Some D' \<Longrightarrow>
     forward_reaches N K s e r D'"
| norep: "forward_reaches N K s e r D \<Longrightarrow> s \<le> i \<Longrightarrow> i < e \<Longrightarrow> 0 \<le> j \<Longrightarrow> j < K \<Longrightarrow>
     from_slot (D (i * N + j)) \<noteq> 0 \<Longrightarrow> 2 \<le> k \<Longrightarrow> i + k \<le> e \<Longrightarrow> pen = 3 \<or> pen = 4 \<Longrightarrow>
     insert_norep N K D i j off pen k = Some D' \<Longrightarrow>
     forward_reaches N K s e r D'"
| rep: "forward_reaches N K s e r D \<Longrightarrow> s \<le> i \<Longrightarrow> i < e \<Longrightarrow> 0 \<le> j \<Longrightarrow> j < K \<Longrightarrow>
     from_slot (D (i * N + j)) \<noteq> 0 \<Longrightarrow> 1 \<le> k \<Longrightarrow> i + k \<le> e \<Longrightarrow>
     insert_rep N K D i j k = Some D' \<Longrightarrow>
     forward_reaches N K s e r D'"

text \<open>
  The order of a row: by cost, and by score among equal costs. An empty slot keeps the cost
  \<open>0x40000000\<close> and the score 0 of the initialisation.
\<close>

definition BIG_COST :: int where
  "BIG_COST = 0x40000000"

definition akey_le :: "salvador_arrival \<Rightarrow> salvador_arrival \<Rightarrow> bool" where
  "akey_le a b = (cost a < cost b \<or> (cost a = cost b \<and> score a \<le> score b))"

text \<open>The first \<open>K\<close> slots of a row are in order.\<close>

definition row_sorted :: "int \<Rightarrow> (int \<Rightarrow> salvador_arrival) \<Rightarrow> int \<Rightarrow> bool" where
  "row_sorted K arrival base =
     (\<forall>j j'. 0 \<le> j \<and> j \<le> j' \<and> j' < K \<longrightarrow> akey_le (arrival (base + j)) (arrival (base + j')))"

text \<open>The non-empty slots of a row are a prefix of its first \<open>K\<close> slots.\<close>

definition row_dense :: "int \<Rightarrow> (int \<Rightarrow> salvador_arrival) \<Rightarrow> int \<Rightarrow> bool" where
  "row_dense K arrival base =
     (\<forall>j j'. 0 \<le> j \<and> j \<le> j' \<and> j' < K \<and> from_slot (arrival (base + j')) \<noteq> 0
        \<longrightarrow> from_slot (arrival (base + j)) \<noteq> 0)"

text \<open>
  What every slot of a row satisfies: the score is not negative, an empty slot is as the
  initialisation left it, a non-empty one costs less than \<open>0x40000000\<close>, and the slots from
  \<open>K\<close> on are empty.
\<close>

definition row_slots :: "int \<Rightarrow> int \<Rightarrow> (int \<Rightarrow> salvador_arrival) \<Rightarrow> int \<Rightarrow> bool" where
  "row_slots N K arrival base =
     (\<forall>j. 0 \<le> j \<and> j < N \<longrightarrow>
        0 \<le> score (arrival (base + j)) \<and>
        (from_slot (arrival (base + j)) = 0 \<longrightarrow>
           cost (arrival (base + j)) = BIG_COST \<and> score (arrival (base + j)) = 0) \<and>
        (from_slot (arrival (base + j)) \<noteq> 0 \<longrightarrow> cost (arrival (base + j)) < BIG_COST) \<and>
        (K \<le> j \<longrightarrow> from_slot (arrival (base + j)) = 0))"

definition row_inv :: "int \<Rightarrow> int \<Rightarrow> (int \<Rightarrow> salvador_arrival) \<Rightarrow> int \<Rightarrow> bool" where
  "row_inv N K arrival base =
     (row_slots N K arrival base \<and> row_dense K arrival base \<and> row_sorted K arrival base)"

text \<open>
  The invariant of the table: the row of the first position is as initialised, and every
  later row of the block satisfies \<open>row_inv\<close>.
\<close>

definition arrivals_ok :: "int \<Rightarrow> int \<Rightarrow> int \<Rightarrow> int \<Rightarrow> int \<Rightarrow> (int \<Rightarrow> salvador_arrival) \<Rightarrow> bool" where
  "arrivals_ok N K s e r D =
     ((\<forall>j. 0 \<le> j \<and> j < N \<longrightarrow> D (s * N + j) = arrivals_init N s r (s * N + j)) \<and>
      (\<forall>p. s < p \<and> p \<le> e \<longrightarrow> row_inv N K D (p * N)))"

section \<open>Properties\<close>

subsection \<open>The gamma writer writes the gamma code\<close>

lemma ilog2_small: "v < 2 \<Longrightarrow> ilog2 v = 0"
  by (subst ilog2.simps) simp

lemma ilog2_step: "2 \<le> v \<Longrightarrow> ilog2 v = Suc (ilog2 (v div 2))"
  by (subst ilog2.simps) simp

lemma ilog2_bounds: "1 \<le> v \<Longrightarrow> 2 ^ ilog2 v \<le> v \<and> v < 2 ^ (ilog2 v + 1)"
proof (induction v rule: ilog2.induct)
  case (1 v)
  show ?case
  proof (cases "v < 2")
    case True
    with 1 show ?thesis by (simp add: ilog2_small)
  next
    case False
    then have e: "ilog2 v = Suc (ilog2 (v div 2))" by (simp add: ilog2_step)
    from False have "1 \<le> v div 2" by simp
    with 1 False have ih: "2 ^ ilog2 (v div 2) \<le> v div 2 \<and> v div 2 < 2 ^ (ilog2 (v div 2) + 1)"
      by simp
    have d: "v div 2 * 2 \<le> v" "v < v div 2 * 2 + 2" by simp_all
    from ih have ih': "2 * 2 ^ ilog2 (v div 2) \<le> v div 2 * 2"
      "v div 2 * 2 + 2 \<le> 2 * (2 * 2 ^ ilog2 (v div 2))"
      by simp_all
    show ?thesis unfolding e using d ih' by simp
  qed
qed

lemma ilog2_unique:
  assumes "2 ^ j \<le> v" and "v < 2 ^ (j + 1)"
  shows "ilog2 v = j"
proof -
  have "(1::int) \<le> 2 ^ j" by simp
  with assms have v1: "1 \<le> v" by linarith
  from ilog2_bounds[OF v1] have b: "2 ^ ilog2 v \<le> v" "v < 2 ^ (ilog2 v + 1)" by simp_all
  have "(2::int) ^ j < 2 ^ (ilog2 v + 1)" using assms b by linarith
  then have 1: "j < ilog2 v + 1" by (rule power_less_imp_less_exp[rotated]) simp
  have "(2::int) ^ ilog2 v < 2 ^ (j + 1)" using assms b by linarith
  then have 2: "ilog2 v < j + 1" by (rule power_less_imp_less_exp[rotated]) simp
  from 1 2 show ?thesis by simp
qed

lemma elias_top_pow:
  "i = 2 ^ Suc j \<Longrightarrow> j \<le> ilog2 v \<Longrightarrow> elias_top v i = 2 ^ (ilog2 v + 1)"
proof (induction v i arbitrary: j rule: elias_top.induct)
  case (1 v i)
  show ?case
  proof (cases "i \<le> v")
    case True
    have ipos: "0 < i" using 1(2) by simp
    have v1: "1 \<le> v" using True ipos by linarith
    have "2 ^ Suc j < (2::int) ^ (ilog2 v + 1)" using ilog2_bounds[OF v1] True 1(2) by linarith
    then have "Suc j < ilog2 v + 1" by (rule power_less_imp_less_exp[rotated]) simp
    then have "Suc j \<le> ilog2 v" by simp
    then have "elias_top v (2 * i) = 2 ^ (ilog2 v + 1)"
      using 1(1)[of "Suc j"] True ipos 1(2) by simp
    then show ?thesis using True ipos by (subst elias_top.simps) simp
  next
    case False
    have e: "elias_top v i = i" using False by (subst elias_top.simps) simp
    have "ilog2 v = j"
    proof (cases "1 \<le> v")
      case True
      have "2 ^ j \<le> (2::int) ^ ilog2 v" using 1(3) by (simp add: power_increasing)
      then have "2 ^ j \<le> v" using ilog2_bounds[OF True] by linarith
      then show ?thesis using False 1(2) by (intro ilog2_unique) simp_all
    next
      case F: False
      then show ?thesis using 1(3) by (simp add: ilog2_small)
    qed
    then show ?thesis using e 1(2) by simp
  qed
qed

lemma elias_top_div2: "elias_top v 2 div 2 = 2 ^ ilog2 v"
  using elias_top_pow[of 2 0 v] by simp

lemma write_bit_seq_append:
  "write_bit_seq w m (xs @ ys) = write_bit_seq (write_bit_seq w m xs) m ys"
  by (induction xs arbitrary: w) simp_all

lemma and_pow2_bit: "((v::int) AND 2 ^ n \<noteq> 0) = bit v n"
  using bit_iff_and_push_bit_not_eq_0[of v n] by (simp add: push_bit_eq_mult)

lemma elias_data_bit:
  "(if iv \<noteq> (0::int)
    then salvador_write_bits w m (if (v::int) AND 2 ^ n \<noteq> 0 then 0 else 1) 1
    else salvador_write_bits w m (if v AND 2 ^ n \<noteq> 0 then 1 else 0) 1)
   = salvador_write_bits w m (of_bool (bit v n \<noteq> (iv \<noteq> 0))) 1"
  by (simp add: and_pow2_bit)

lemma elias_write_loop_None:
  "elias_write_loop m v iv (2 ^ n) (w, None) = (write_bit_seq w m (gamma_pairs (iv \<noteq> 0) v n), None)"
proof (induction n arbitrary: w)
  case 0
  show ?case by (subst elias_write_loop.simps) simp
next
  case (Suc n)
  have pos: "(0::int) < 2 ^ n" by simp
  show ?case
    apply (subst elias_write_loop.simps)
    apply (simp only: power_Suc nonzero_mult_div_cancel_left Let_def pos if_True option.case prod.case elias_data_bit)
    apply (simp add: Suc.IH)
    done
qed

lemma elias_write_loop_Some_0:
  "elias_write_loop m v iv (2 ^ 0) (w, Some p) = (w, Some p)"
  by (subst elias_write_loop.simps) simp

lemma elias_write_loop_Some_Suc:
  "elias_write_loop m v iv (2 ^ Suc n) (w, Some p) =
     (write_bit_seq (w\<lparr>pOutData := (pOutData w)(p := pOutData w p AND 0xfe)\<rparr>) m
        ((bit v n \<noteq> (iv \<noteq> 0)) # gamma_pairs (iv \<noteq> 0) v n), None)"
proof -
  have pos: "(0::int) < 2 ^ n" by simp
  show ?thesis
    apply (subst elias_write_loop.simps)
    apply (simp only: power_Suc nonzero_mult_div_cancel_left Let_def pos if_True option.case prod.case elias_data_bit)
    apply (simp add: elias_write_loop_None)
    done
qed

lemma write_elias_value_None:
  "salvador_write_elias_value w m v iv None = write_bit_seq w m (elias_gamma_bits (iv \<noteq> 0) v)"
  by (simp add: salvador_write_elias_value_def elias_top_div2 elias_write_loop_None
      elias_gamma_bits_def write_bit_seq_append)

lemma write_elias_value_Some:
  "salvador_write_elias_value w m v iv (Some p) =
     write_bit_seq (w\<lparr>pOutData := (pOutData w)(p := (pOutData w p AND 0xfe)
                        OR of_bool (hd (elias_gamma_bits (iv \<noteq> 0) v)))\<rparr>) m
       (tl (elias_gamma_bits (iv \<noteq> 0) v))"
proof (cases "ilog2 v")
  case 0
  then show ?thesis
    using elias_write_loop_Some_0[of m v iv w p]
    by (simp add: salvador_write_elias_value_def elias_top_div2 elias_gamma_bits_def)
next
  case (Suc n)
  then show ?thesis
    by (simp add: salvador_write_elias_value_def elias_top_div2 elias_gamma_bits_def
        elias_write_loop_Some_Suc write_bit_seq_append del: power_Suc)
qed

lemma gamma_value_pairs:
  "gamma_value iv acc (gamma_pairs iv v n @ [True]) = acc * 2 ^ n + take_bit n v"
proof (induction n arbitrary: acc)
  case 0
  show ?case by simp
next
  case (Suc n)
  have b: "((bit v n \<noteq> iv) \<noteq> iv) = bit v n" by auto
  show ?case
    by (simp add: Suc.IH b take_bit_Suc_from_most algebra_simps)
qed

lemma take_bit_ilog2: "1 \<le> v \<Longrightarrow> 2 ^ ilog2 v + take_bit (ilog2 v) v = v"
proof -
  assume v1: "1 \<le> v"
  from ilog2_bounds[OF v1] have b: "2 ^ ilog2 v \<le> v" "v < 2 * 2 ^ ilog2 v" by simp_all
  have "(v - 2 ^ ilog2 v) mod 2 ^ ilog2 v = v - 2 ^ ilog2 v"
    using b by (intro mod_pos_pos_trivial) simp_all
  then have "v mod 2 ^ ilog2 v = v - 2 ^ ilog2 v" by simp
  then show ?thesis by (simp add: take_bit_eq_mod)
qed

lemma gamma_value_elias: "1 \<le> v \<Longrightarrow> gamma_value iv 1 (elias_gamma_bits iv v) = v"
  by (simp add: elias_gamma_bits_def gamma_value_pairs take_bit_ilog2)

subsection \<open>Single bit writes\<close>

lemma write_bits_loop_done: "i < 0 \<Longrightarrow> write_bits_loop m v i w = w"
  by (subst write_bits_loop.simps) simp

lemma write_bits_loop_step:
  "0 \<le> i \<Longrightarrow> write_bits_loop m v i w =
     (if nCurBitsOffset w = INT_MIN \<and> m \<le> nOutOffset w then w\<lparr>nOutOffset := - 1\<rparr>
      else write_bits_loop m v (i - 1) (put_bit w (bit v (nat i))))"
  by (subst write_bits_loop.simps) simp

lemma write_bits_one:
  "salvador_write_bits w m v 1 =
     (if nOutOffset w < 0 \<or> (nCurBitsOffset w = INT_MIN \<and> m \<le> nOutOffset w)
      then w\<lparr>nOutOffset := - 1\<rparr>
      else put_bit w (bit v 0))"
  by (simp add: salvador_write_bits_def write_bits_loop_step write_bits_loop_done)

lemma write_bits_failed: "nOutOffset w < 0 \<Longrightarrow> salvador_write_bits w m v n = w\<lparr>nOutOffset := - 1\<rparr>"
  by (simp add: salvador_write_bits_def)

lemma put_bit_untouched:
  "untouched k w \<Longrightarrow> pOutData (put_bit w b) k = pOutData w k \<and> untouched k (put_bit w b)"
  by (auto simp: untouched_def put_bit_def Let_def)

lemma write_bits_one_untouched:
  "untouched k w \<Longrightarrow>
     pOutData (salvador_write_bits w m v 1) k = pOutData w k \<and>
     (nOutOffset (salvador_write_bits w m v 1) < 0 \<or> untouched k (salvador_write_bits w m v 1))"
  by (simp add: write_bits_one put_bit_untouched)

lemma write_bit_seq_failed:
  "nOutOffset w < 0 \<Longrightarrow>
     pOutData (write_bit_seq w m bs) = pOutData w \<and> nOutOffset (write_bit_seq w m bs) < 0"
  by (induction bs arbitrary: w) (simp_all add: write_bits_failed)

lemma write_bit_seq_untouched:
  "untouched k w \<Longrightarrow> pOutData (write_bit_seq w m bs) k = pOutData w k"
proof (induction bs arbitrary: w)
  case Nil
  show ?case by simp
next
  case (Cons b bs)
  let ?w = "salvador_write_bits w m (of_bool b) 1"
  from write_bits_one_untouched[OF Cons.prems, of m "of_bool b"]
  have 1: "pOutData ?w k = pOutData w k" and 2: "nOutOffset ?w < 0 \<or> untouched k ?w" by simp_all
  from 2 show ?case
  proof
    assume "nOutOffset ?w < 0"
    then show ?thesis using write_bit_seq_failed[of ?w m bs] 1 by simp
  next
    assume "untouched k ?w"
    then show ?thesis using Cons.IH[of ?w] 1 by simp
  qed
qed

lemma bit_127: "bit (x::byte) (Suc n) \<Longrightarrow> bit (127::byte) n"
proof -
  assume "bit x (Suc n)"
  then have "Suc n < 8" using bit_imp_le_length[of x "Suc n"] by simp
  then have "bit (mask 7 :: byte) n" by (simp add: bit_mask_iff)
  then show ?thesis by (simp add: mask_eq_exp_minus_1)
qed

lemma lsb_store_upper: "drop_bit 1 (((x::byte) AND 0xfe) OR of_bool b) = drop_bit 1 x"
  by (rule bit_eqI) (auto simp: bit_simps dest: bit_127)

lemma lsb_store_bit0: "bit (((x::byte) AND 0xfe) OR of_bool b) 0 = b"
  by (auto simp: bit_simps)

subsection \<open>Claim C10: the reserved first-bit slot\<close>

text \<open>
  Claim C10. When salvador_write_elias_value is called with a first-bit pointer \<open>p\<close>, it
  does what the following does: store the first bit of the gamma code into the least
  significant bit of the byte at \<open>p\<close>, leaving its upper seven bits as they were, and write
  every later bit of the code through salvador_write_bits, one after the other. When the
  byte at \<open>p\<close> is not touched by those bit writes (it lies below the write index and is
  not the byte open for bits, as in salvador_write_block), it ends as the old byte with
  its least significant bit replaced by the first bit of the code.
\<close>

theorem first_bit_slot:
  "salvador_write_elias_value w m v iv (Some p) =
     write_bit_seq (w\<lparr>pOutData := (pOutData w)(p := (pOutData w p AND 0xfe)
                        OR of_bool (hd (elias_gamma_bits (iv \<noteq> 0) v)))\<rparr>) m
       (tl (elias_gamma_bits (iv \<noteq> 0) v))
   \<and> (untouched p w \<longrightarrow>
        pOutData (salvador_write_elias_value w m v iv (Some p)) p =
          (pOutData w p AND 0xfe) OR of_bool (hd (elias_gamma_bits (iv \<noteq> 0) v)))
   \<and> drop_bit 1 ((pOutData w p AND 0xfe) OR of_bool (hd (elias_gamma_bits (iv \<noteq> 0) v)))
        = drop_bit 1 (pOutData w p)
   \<and> bit ((pOutData w p AND 0xfe) OR of_bool (hd (elias_gamma_bits (iv \<noteq> 0) v))) 0
        = hd (elias_gamma_bits (iv \<noteq> 0) v)"
proof (intro conjI impI)
  let ?b = "hd (elias_gamma_bits (iv \<noteq> 0) v)"
  let ?w = "w\<lparr>pOutData := (pOutData w)(p := (pOutData w p AND 0xfe) OR of_bool ?b)\<rparr>"
  show e: "salvador_write_elias_value w m v iv (Some p) =
             write_bit_seq ?w m (tl (elias_gamma_bits (iv \<noteq> 0) v))"
    by (rule write_elias_value_Some)
  show "drop_bit 1 ((pOutData w p AND 0xfe) OR of_bool ?b) = drop_bit 1 (pOutData w p)"
    by (rule lsb_store_upper)
  show "bit ((pOutData w p AND 0xfe) OR of_bool ?b) 0 = ?b"
    by (rule lsb_store_bit0)
  assume "untouched p w"
  then have "untouched p ?w" by (simp add: untouched_def)
  from write_bit_seq_untouched[OF this]
  show "pOutData (salvador_write_elias_value w m v iv (Some p)) p
          = (pOutData w p AND 0xfe) OR of_bool ?b"
    unfolding e by simp
qed

text \<open>
  The low byte \<open>0xfe\<close> at index 0 and the length code of 2, which is 0 0 1: the slot takes
  the first 0, the byte keeps its upper bits, and the bits 0 1 open a new byte at index 1.
\<close>

theorem first_bit_slot_witness:
  "untouched 0 w_low_byte
   \<and> pOutData (salvador_write_elias_value w_low_byte 16 2 0 (Some 0)) 0
       = (pOutData w_low_byte 0 AND 0xfe) OR of_bool (hd (elias_gamma_bits False 2))
   \<and> pOutData (salvador_write_elias_value w_low_byte 16 2 0 (Some 0)) 0 = 0xfe
   \<and> pOutData (salvador_write_elias_value w_low_byte 16 2 0 (Some 0)) 1 = 0x40"
proof -
  have u: "untouched 0 w_low_byte" by code_simp
  have v: "pOutData (salvador_write_elias_value w_low_byte 16 2 0 (Some 0)) 0 = 0xfe"
    "pOutData (salvador_write_elias_value w_low_byte 16 2 0 (Some 0)) 1 = 0x40"
    by code_simp+
  have f: "((0::int) \<noteq> 0) = False" by simp
  from first_bit_slot[of w_low_byte 16 2 0 0, unfolded f] u
  have "pOutData (salvador_write_elias_value w_low_byte 16 2 0 (Some 0)) 0
       = (pOutData w_low_byte 0 AND 0xfe) OR of_bool (hd (elias_gamma_bits False 2))"
    by blast
  with u v show ?thesis by blast
qed

subsection \<open>Claim C5: the effective maximum offset\<close>

lemma compress_start_max_offset:
  "max_offset (compressor (compress_start pOut nFlags nMaxWindowSize nDict)) =
     (if nMaxWindowSize = 0 then MAX_OFFSET else int_of_size_t nMaxWindowSize)"
  by (simp add: compress_start_def)

lemma compress_iter_max_offset:
  "max_offset (compressor (compress_iter parse inp n cap bs mbs cs)) = max_offset (compressor cs)"
  by (simp add: compress_iter_def Let_def)

lemma int_of_size_t_below: "n < 2147483648 \<Longrightarrow> int_of_size_t n = int n"
  by (simp add: int_of_size_t_def Let_def)

lemma compress_loop_done:
  "\<not> (nOriginalSize cs < n \<and> nError cs = 0) \<Longrightarrow> compress_loop parse inp n cap bs mbs cs = Some cs"
  by (subst compress_loop.simps) auto

lemma compress_loop_turn:
  "nOriginalSize cs < n \<and> nError cs = 0 \<Longrightarrow>
   compress_loop parse inp n cap bs mbs cs
     = compress_loop parse inp n cap bs mbs (compress_iter parse inp n cap bs mbs cs)"
  by (subst compress_loop.simps) simp

lemma compress_loop_max_offset:
  assumes a: "compress_loop parse inp n cap bs mbs cs = Some cs'"
  shows "max_offset (compressor cs') = max_offset (compressor cs)"
proof (rule compress_loop.raw_induct[where P = "\<lambda>parse inp n cap bs mbs cs cs'.
          max_offset (compressor cs') = max_offset (compressor cs)", OF _ a], goal_cases)
  case (1 f p i k c b m st y)
  show ?case
  proof (cases "nOriginalSize st < k \<and> nError st = 0")
    case True
    with 1(2) have "f p i k c b m (compress_iter p i k c b m st) = Some y" by simp
    from 1(1)[OF this] show ?thesis by (simp add: compress_iter_max_offset)
  next
    case False
    with 1(2) show ?thesis by auto
  qed
qed

text \<open>
  Claim C5, as stated, fails: salvador_compress does not clamp. A requested maximum
  window size of 40000 becomes the \<open>max_offset\<close> of the compressor as it is, above
  \<open>MAX_OFFSET\<close>.
\<close>

theorem max_offset_not_clamped_counterexample:
  "max_offset (compressor (compress_start (\<lambda>k. 0) 0 40000 0)) = 40000
   \<and> MAX_OFFSET < max_offset (compressor (compress_start (\<lambda>k. 0) 0 40000 0))"
  by (simp add: compress_start_def int_of_size_t_def MAX_OFFSET_def)

text \<open>
  Claim C5, amended. The \<open>max_offset\<close> that the compressor uses is the requested maximum
  window size, cast to \<open>int\<close>, when the request is not 0, and \<open>MAX_OFFSET\<close> when it is 0;
  no turn of the loop of salvador_compress changes it, and neither does the loop as a whole.
  So it does not exceed \<open>MAX_OFFSET\<close> whenever the request does not, and for a request
  below \<open>2 ^ 31\<close> only then. A request from \<open>2 ^ 31\<close> on is changed by the cast, which keeps
  the low 32 bits: \<open>4294967301\<close> gives 5. (Offsets above \<open>MAX_OFFSET\<close> are refused later, by
  the emitter: see claim C6.)
\<close>

theorem effective_max_offset:
  "max_offset (compressor (compress_start pOut nFlags nMaxWindowSize nDict)) =
     (if nMaxWindowSize = 0 then MAX_OFFSET else int_of_size_t nMaxWindowSize)
   \<and> max_offset (compressor (compress_iter parse inp n cap bs mbs cs)) = max_offset (compressor cs)
   \<and> (compress_loop parse inp n cap bs mbs cs = Some cs' \<longrightarrow>
        max_offset (compressor cs') = max_offset (compressor cs))
   \<and> (int nMaxWindowSize \<le> MAX_OFFSET \<longrightarrow>
        max_offset (compressor (compress_start pOut nFlags nMaxWindowSize nDict)) \<le> MAX_OFFSET)
   \<and> (nMaxWindowSize < 2147483648 \<longrightarrow>
        (max_offset (compressor (compress_start pOut nFlags nMaxWindowSize nDict)) \<le> MAX_OFFSET)
          = (int nMaxWindowSize \<le> MAX_OFFSET))
   \<and> max_offset (compressor (compress_start pOut nFlags 4294967301 nDict)) = 5"
proof (intro conjI impI)
  show "max_offset (compressor (compress_start pOut nFlags nMaxWindowSize nDict)) =
     (if nMaxWindowSize = 0 then MAX_OFFSET else int_of_size_t nMaxWindowSize)"
    by (rule compress_start_max_offset)
  show "max_offset (compressor (compress_iter parse inp n cap bs mbs cs)) = max_offset (compressor cs)"
    by (rule compress_iter_max_offset)
  show "max_offset (compressor cs') = max_offset (compressor cs)"
    if "compress_loop parse inp n cap bs mbs cs = Some cs'"
    using that by (rule compress_loop_max_offset)
  show "max_offset (compressor (compress_start pOut nFlags nMaxWindowSize nDict)) \<le> MAX_OFFSET"
    if a: "int nMaxWindowSize \<le> MAX_OFFSET"
  proof -
    from a have "nMaxWindowSize < 2147483648" by (simp add: MAX_OFFSET_def)
    then have "int_of_size_t nMaxWindowSize = int nMaxWindowSize" by (rule int_of_size_t_below)
    with a show ?thesis by (simp add: compress_start_max_offset)
  qed
  show "(max_offset (compressor (compress_start pOut nFlags nMaxWindowSize nDict)) \<le> MAX_OFFSET)
          = (int nMaxWindowSize \<le> MAX_OFFSET)"
    if b: "nMaxWindowSize < 2147483648"
  proof -
    from b have "int_of_size_t nMaxWindowSize = int nMaxWindowSize" by (rule int_of_size_t_below)
    then show ?thesis by (simp add: compress_start_max_offset MAX_OFFSET_def)
  qed
  show "max_offset (compressor (compress_start pOut nFlags 4294967301 nDict)) = 5"
    by (simp add: compress_start_max_offset int_of_size_t_def)
qed

text \<open>
  An instance: a request of 100 with a one-byte input, for which the loop makes one turn,
  and a request of 40000.
\<close>

theorem effective_max_offset_witness:
  "compress_loop literal_parser (\<lambda>k. 0x41) 1 16 1024 1024 (compress_start (\<lambda>k. 0) 0 100 0)
     = Some (compress_iter literal_parser (\<lambda>k. 0x41) 1 16 1024 1024 (compress_start (\<lambda>k. 0) 0 100 0))
   \<and> max_offset (compressor (compress_iter literal_parser (\<lambda>k. 0x41) 1 16 1024 1024
                                (compress_start (\<lambda>k. 0) 0 100 0)))
       = max_offset (compressor (compress_start (\<lambda>k. 0) 0 100 0))
   \<and> int (100::nat) \<le> MAX_OFFSET \<and> (100::nat) < 2147483648
   \<and> max_offset (compressor (compress_start (\<lambda>k. 0) 0 100 0)) \<le> MAX_OFFSET
   \<and> (40000::nat) < 2147483648 \<and> \<not> int (40000::nat) \<le> MAX_OFFSET
   \<and> \<not> max_offset (compressor (compress_start (\<lambda>k. 0) 0 40000 0)) \<le> MAX_OFFSET"
proof -
  let ?cs0 = "compress_start (\<lambda>k. 0) 0 100 0"
  let ?cs1 = "compress_iter literal_parser (\<lambda>k. 0x41) 1 16 1024 1024 ?cs0"
  have c0: "nOriginalSize ?cs0 < 1 \<and> nError ?cs0 = 0" by (simp add: compress_start_def)
  have c1: "nOriginalSize ?cs1 = 1" by code_simp
  have "compress_loop literal_parser (\<lambda>k. 0x41) 1 16 1024 1024 ?cs0
          = compress_loop literal_parser (\<lambda>k. 0x41) 1 16 1024 1024 ?cs1"
    using c0 by (rule compress_loop_turn)
  also have "\<dots> = Some ?cs1"
  proof (rule compress_loop_done)
    show "\<not> (nOriginalSize ?cs1 < 1 \<and> nError ?cs1 = 0)" unfolding c1 by simp
  qed
  finally have l: "compress_loop literal_parser (\<lambda>k. 0x41) 1 16 1024 1024 ?cs0 = Some ?cs1" .
  have h1: "int (100::nat) \<le> MAX_OFFSET" "(100::nat) < 2147483648"
    "(40000::nat) < 2147483648" "\<not> int (40000::nat) \<le> MAX_OFFSET"
    by (simp_all add: MAX_OFFSET_def)
  note t1 = effective_max_offset[of "\<lambda>k. 0" 0 100 0 literal_parser "\<lambda>k. 0x41" 1 16 1024 1024 ?cs0 ?cs1]
  note t2 = effective_max_offset[of "\<lambda>k. 0" 0 40000 0 literal_parser "\<lambda>k. 0x41" 1 16 1024 1024 ?cs0 ?cs1]
  from t1 l have a: "max_offset (compressor ?cs1) = max_offset (compressor ?cs0)" by blast
  from t1 h1 have b: "max_offset (compressor ?cs0) \<le> MAX_OFFSET" by blast
  from t2 h1 have c: "\<not> max_offset (compressor (compress_start (\<lambda>k. 0) 0 40000 0)) \<le> MAX_OFFSET"
    by blast
  from l a b c h1 show ?thesis by blast
qed

subsection \<open>Claim C2: the empty input\<close>

lemma compress_empty:
  "salvador_compress parse 0 inp pOut 0 cap fl mws dict =
     Some \<lparr>compressed_size = 0, out_buffer = pOut, pStats = Some init_stats\<rparr>"
  by (simp add: salvador_compress_def Let_def compress_loop_done compress_start_def)

text \<open>
  Claim C2, as stated, fails in its second half: on an input of length 0 the loop of
  salvador_compress is not entered, no block is handed to the emitter, and nothing is
  written. The compressed size is 0 and a buffer filled with \<open>0xff\<close> is left as it was,
  whereas the end-of-data marker of a last block, as the emitter writes it for an empty
  block, is the three bytes \<open>0x80 0x00 0x40\<close> (the token 1, the gamma code of 256, padding).
\<close>

theorem compress_empty_counterexample:
  "(case salvador_compress no_parser 0 (\<lambda>k. 0) (\<lambda>k. 0xff) 0 16 0 0 0 of
      None \<Rightarrow> None
    | Some r \<Rightarrow> Some (compressed_size r, map (out_buffer r) [0, 1, 2])) = Some (0, [0xff, 0xff, 0xff])
   \<and> out_bytes (salvador_write_block (ex_compressor 0) (ex_parse []) (ex_window []) 0 0
        w_empty 16 0 1 3) = [0x80, 0, 0x40]"
proof -
  have "out_bytes (salvador_write_block (ex_compressor 0) (ex_parse []) (ex_window []) 0 0
        w_empty 16 0 1 3) = [0x80, 0, 0x40]"
    by code_simp
  then show ?thesis by (simp add: compress_empty)
qed

text \<open>
  Claim C2, amended. Compressing an input of length 0 succeeds, for every parser, flags,
  window size, dictionary size and output capacity, once the initialisation has
  succeeded: the call returns, the compressed size is 0, the output buffer is left
  unchanged (no end-of-data marker is written), and the statistics are the initial ones.
\<close>

theorem compress_empty_input:
  "salvador_compress parse 0 inp pOut 0 cap fl mws dict =
     Some \<lparr>compressed_size = 0, out_buffer = pOut, pStats = Some init_stats\<rparr>"
  by (rule compress_empty)

subsection \<open>The loop of salvador_write_block\<close>

lemma wb_loop_step:
  "i_pos s < nEndOffset c \<Longrightarrow>
     wb_loop c s = (case wb_step c s of Inl e \<Rightarrow> Inl e | Inr s' \<Rightarrow> wb_loop c s')"
  by (subst wb_loop.simps) simp

lemma wb_loop_end: "\<not> i_pos s < nEndOffset c \<Longrightarrow> wb_loop c s = Inr s"
  by (subst wb_loop.simps) simp

lemma st_of_simps [simp]: "st_of (Inl e) = e" "st_of (Inr s) = s"
  by (simp_all add: st_of_def)

lemma wb_loop_invariant:
  "(\<And>s. I s \<Longrightarrow> I (st_of (wb_step c s))) \<Longrightarrow> I s \<Longrightarrow> I (st_of (wb_loop c s))"
proof (induction c s rule: wb_loop.induct)
  case (1 c s)
  note step = "1.prems"(1)
  show ?case
  proof (cases "i_pos s < nEndOffset c")
    case False
    then show ?thesis using "1.prems"(2) by (simp add: wb_loop_end)
  next
    case True
    show ?thesis
    proof (cases "wb_step c s")
      case (Inl e)
      from step[OF "1.prems"(2)] have "I e" by (simp add: Inl)
      then show ?thesis using True Inl by (simp add: wb_loop_step)
    next
      case (Inr s')
      from step[OF "1.prems"(2)] have "I s'" by (simp add: Inr)
      from "1.IH"[OF True Inr step this] show ?thesis using True Inr by (simp add: wb_loop_step)
    qed
  qed
qed

lemma wb_match_invariant:
  assumes s: "I s"
    and lit: "\<And>s. I s \<Longrightarrow> I (st_of (wb_match_literals c s))"
    and cmd: "\<And>s k n. I s \<Longrightarrow> I (st_of (wb_match_command c k n s))"
    and don: "\<And>s2. I s2 \<Longrightarrow>
         I (wb_match_done c (offset_fm (pBestMatch c (i_pos s))) (length_fm (pBestMatch c (i_pos s))) s2)"
  shows "I (st_of (wb_match c s))"
proof -
  let ?off = "offset_fm (pBestMatch c (i_pos s))"
  let ?len = "length_fm (pBestMatch c (i_pos s))"
  show ?thesis
  proof (cases "wb_match_literals c s")
    case (Inl e)
    from lit[OF s] have "I e" by (simp add: Inl)
    then show ?thesis using s Inl by (simp add: wb_match_def Let_def)
  next
    case (Inr s1)
    from lit[OF s] have i1: "I s1" by (simp add: Inr)
    show ?thesis
    proof (cases "wb_match_command c ?off (?len - 2) s1")
      case (Inl e)
      from cmd[OF i1, of ?off "?len - 2"] have "I e" by (simp add: Inl)
      then show ?thesis using s Inr Inl by (simp add: wb_match_def Let_def)
    next
      case r: (Inr s2)
      from cmd[OF i1, of ?off "?len - 2"] have "I s2" by (simp add: r)
      from don[OF this] show ?thesis using s Inr r by (simp add: wb_match_def Let_def)
    qed
  qed
qed



lemma payload_cstats: "cstats (st_of (wb_literals_payload c s)) = cstats s"
  by (simp add: wb_literals_payload_def Let_def)

lemma literals_cstats: "cstats (st_of (wb_literals c s)) = cstats s"
  using payload_cstats[of c] by (simp add: wb_literals_def Let_def)

lemma rep_cstats: "cstats (st_of (wb_rep_match c n s)) = cstats s"
  by (simp add: wb_rep_match_def Let_def)

lemma off_cstats: "cstats (st_of (wb_offset_match c k n s)) = cstats s"
  by (simp add: wb_offset_match_def Let_def)

lemma command_cstats: "cstats (st_of (wb_match_command c k n s)) = cstats s"
  by (simp add: wb_match_command_def rep_cstats off_cstats)

lemma mml_literals: "mml_ok (stats_literals st n) = mml_ok st"
  by (simp add: mml_ok_def stats_literals_def)

lemma mml_match: "1 \<le> l \<Longrightarrow> mml_ok st \<Longrightarrow> mml_ok (stats_match st k l r)"
  by (auto simp: mml_ok_def stats_match_def Let_def)

lemma is_match_lengths:
  "wb_is_match c s \<Longrightarrow>
     1 \<le> length_fm (pBestMatch c (i_pos s)) \<and>
     (\<not> emits_rep c s \<longrightarrow> 2 \<le> length_fm (pBestMatch c (i_pos s)))"
  by (auto simp: wb_is_match_def emits_rep_def Let_def)

lemma wb_match_mml:
  assumes m: "wb_is_match c s" and p: "mml_ok (cstats s)"
  shows "mml_ok (cstats (st_of (wb_match c s)))"
proof (rule wb_match_invariant[where I = "\<lambda>s. mml_ok (cstats s)"])
  show "mml_ok (cstats s)" by (rule p)
  show "\<And>s. mml_ok (cstats s) \<Longrightarrow> mml_ok (cstats (st_of (wb_match_literals c s)))"
    by (simp add: wb_match_literals_def literals_cstats mml_literals)
  show "\<And>s k n. mml_ok (cstats s) \<Longrightarrow> mml_ok (cstats (st_of (wb_match_command c k n s)))"
    by (simp add: command_cstats)
  fix s2 :: wb_state assume "mml_ok (cstats s2)"
  with is_match_lengths[OF m]
  have "mml_ok (stats_match (cstats s2) (offset_fm (pBestMatch c (i_pos s)))
          (length_fm (pBestMatch c (i_pos s))) (nRepMatchOffset s2))"
    by (simp add: mml_match)
  then show "mml_ok (cstats (wb_match_done c (offset_fm (pBestMatch c (i_pos s)))
          (length_fm (pBestMatch c (i_pos s))) s2))"
    by (simp add: wb_match_done_def Let_def mml_ok_def)
qed

lemma wb_step_mml: "mml_ok (cstats s) \<Longrightarrow> mml_ok (cstats (st_of (wb_step c s)))"
  by (cases "wb_is_match c s") (simp_all add: wb_step_def wb_match_mml)

lemma wb_loop_mml: "mml_ok (cstats s) \<Longrightarrow> mml_ok (cstats (st_of (wb_loop c s)))"
  by (rule wb_loop_invariant[where I = "\<lambda>s. mml_ok (cstats s)"]) (rule wb_step_mml)

lemma end_marker_cstats: "cstats (st_of (wb_end_marker c s)) = cstats s"
  by (simp add: wb_end_marker_def Let_def)

lemma final_literals_cstats: "cstats (st_of (wb_final_literals c s)) = cstats s"
  using literals_cstats[of c s]
  by (cases "wb_literals c s") (simp_all add: wb_final_literals_def)

lemma wb_finish_cstats:
  "cstats (st_of (wb_finish c s)) = cstats s \<or>
   cstats (st_of (wb_finish c s)) = stats_literals (cstats s) (nNumLiterals s)"
proof -
  let ?s1 = "s\<lparr>cstats := stats_literals (cstats s) (nNumLiterals s), nFinalLiterals := 0\<rparr>"
  have a: "cstats (st_of (wb_final_literals c ?s1)) = stats_literals (cstats s) (nNumLiterals s)"
    by (simp add: final_literals_cstats)
  show ?thesis
  proof (cases "wb_final_literals c ?s1")
    case (Inl e)
    with a show ?thesis by (simp add: wb_finish_def)
  next
    case (Inr s3)
    with a end_marker_cstats[of c s3] show ?thesis by (simp add: wb_finish_def)
  qed
qed

lemma wb_finish_mml: "mml_ok (cstats s) \<Longrightarrow> mml_ok (cstats (st_of (wb_finish c s)))"
  using wb_finish_cstats[of c s] by (auto simp: mml_literals)

lemma write_block_stats_out:
  "stats_out (salvador_write_block pc bm win st en w mx fl0 rp fl) =
     cstats (st_of (case wb_loop (wb_consts pc bm win st en mx fl) (wb_init pc st w fl0 rp fl) of
                      Inl e \<Rightarrow> Inl e | Inr s1 \<Rightarrow> wb_finish (wb_consts pc bm win st en mx fl) s1))"
  by (simp add: salvador_write_block_def Let_def split: sum.splits)

lemma write_block_mml:
  assumes "mml_ok (stats pc)"
  shows "mml_ok (stats_out (salvador_write_block pc bm win st en w mx fl0 rp fl))"
proof -
  let ?c = "wb_consts pc bm win st en mx fl"
  let ?s0 = "wb_init pc st w fl0 rp fl"
  have "mml_ok (cstats ?s0)" using assms by (simp add: wb_init_def)
  from wb_loop_mml[OF this, of ?c] show ?thesis
    unfolding write_block_stats_out
    by (cases "wb_loop ?c ?s0") (simp_all add: wb_finish_mml)
qed

lemma wb_turns_Inl: "wb_turns n c s = Inl e \<Longrightarrow> wb_loop c s = Inl e"
proof (induction n arbitrary: s)
  case 0
  then show ?case by simp
next
  case (Suc n)
  then show ?case
    by (cases "i_pos s < nEndOffset c") (auto simp: wb_loop_step split: sum.splits)
qed

lemma wb_turns_Inr: "wb_turns n c s = Inr s' \<Longrightarrow> wb_loop c s = wb_loop c s'"
proof (induction n arbitrary: s)
  case 0
  then show ?case by simp
next
  case (Suc n)
  then show ?case
    by (cases "i_pos s < nEndOffset c") (auto simp: wb_loop_step split: sum.splits)
qed

lemma wb_match_refused:
  "bad_offset c s \<or> (nIsFirstCommand s \<noteq> 0 \<and> nNumLiterals s = 0) \<Longrightarrow> wb_match c s = Inl s"
  by (auto simp: wb_match_def bad_offset_def Let_def)

lemma reaches_match_fails:
  assumes "reaches_match n c s0 (\<lambda>s. bad_offset c s \<or> (nIsFirstCommand s \<noteq> 0 \<and> nNumLiterals s = 0))"
  shows "\<exists>e. wb_loop c s0 = Inl e"
proof -
  from assms obtain s where t: "wb_turns n c s0 = Inr s" and i: "i_pos s < nEndOffset c"
    and m: "wb_is_match c s"
    and b: "bad_offset c s \<or> (nIsFirstCommand s \<noteq> 0 \<and> nNumLiterals s = 0)"
    by (auto simp: reaches_match_def split: sum.splits)
  have "wb_step c s = Inl s" using m wb_match_refused[OF b] by (simp add: wb_step_def)
  then have "wb_loop c s = Inl s" using i by (simp add: wb_loop_step)
  then show ?thesis using wb_turns_Inr[OF t] by simp
qed

lemma write_block_fails: "wb_loop (wb_consts pc bm win st en mx fl) (wb_init pc st w fl0 rp fl) = Inl e \<Longrightarrow>
   ret (salvador_write_block pc bm win st en w mx fl0 rp fl) = - 1"
  by (simp add: salvador_write_block_def Let_def)

subsection \<open>Claim C6: format constraint violations\<close>

text \<open>
  Claim C6. If the loop of salvador_write_block comes, after any number of turns, to a
  match command whose offset is below \<open>MIN_OFFSET\<close> or above the smaller of \<open>max_offset\<close>
  and \<open>MAX_OFFSET\<close>, or to a match command while it is still at the first command of a
  first block with no literal pending, the block returns \<open>-1\<close>. In particular a first
  block whose first position holds a match of length 2 or more returns \<open>-1\<close>.
\<close>

theorem format_violation_returns_minus_one:
  "(reaches_match n (wb_consts pc bm win st en mx fl) (wb_init pc st w fl0 rp fl)
      (\<lambda>s. bad_offset (wb_consts pc bm win st en mx fl) s \<or>
           (nIsFirstCommand s \<noteq> 0 \<and> nNumLiterals s = 0))
    \<longrightarrow> ret (salvador_write_block pc bm win st en w mx fl0 rp fl) = - 1)
   \<and> (fl AND 1 \<noteq> 0 \<and> st < en \<and> 2 \<le> length_fm (bm st)
    \<longrightarrow> ret (salvador_write_block pc bm win st en w mx fl0 rp fl) = - 1)"
proof (intro conjI impI)
  let ?c = "wb_consts pc bm win st en mx fl"
  let ?s0 = "wb_init pc st w fl0 rp fl"
  {
    assume "reaches_match n ?c ?s0 (\<lambda>s. bad_offset ?c s \<or> (nIsFirstCommand s \<noteq> 0 \<and> nNumLiterals s = 0))"
    from reaches_match_fails[OF this] obtain e where "wb_loop ?c ?s0 = Inl e" ..
    then show "ret (salvador_write_block pc bm win st en w mx fl0 rp fl) = - 1"
      by (rule write_block_fails)
  }
  {
    assume a: "fl AND 1 \<noteq> 0 \<and> st < en \<and> 2 \<le> length_fm (bm st)"
    then have "reaches_match 0 ?c ?s0 (\<lambda>s. bad_offset ?c s \<or> (nIsFirstCommand s \<noteq> 0 \<and> nNumLiterals s = 0))"
      by (simp add: reaches_match_def wb_init_def wb_consts_def wb_is_match_def)
    from reaches_match_fails[OF this] obtain e where "wb_loop ?c ?s0 = Inl e" ..
    then show "ret (salvador_write_block pc bm win st en w mx fl0 rp fl) = - 1"
      by (rule write_block_fails)
  }
qed

theorem format_violation_returns_minus_one_witness:
  "reaches_match 1 (wb_consts (ex_compressor 0) (ex_parse [(0, 0), (2, 0), (0, 0)])
        (ex_window [0x41, 0x42, 0x42]) 0 3 16 3)
     (wb_init (ex_compressor 0) 0 w_empty 0 1 3)
     (\<lambda>s. bad_offset (wb_consts (ex_compressor 0) (ex_parse [(0, 0), (2, 0), (0, 0)])
             (ex_window [0x41, 0x42, 0x42]) 0 3 16 3) s \<or>
          (nIsFirstCommand s \<noteq> 0 \<and> nNumLiterals s = 0))
   \<and> ret (salvador_write_block (ex_compressor 0) (ex_parse [(0, 0), (2, 0), (0, 0)])
        (ex_window [0x41, 0x42, 0x42]) 0 3 w_empty 16 0 1 3) = - 1
   \<and> (3::int) AND 1 \<noteq> 0 \<and> (0::int) < 3 \<and> 2 \<le> length_fm (ex_parse [(2, 1), (0, 0), (0, 0)] 0)
   \<and> ret (salvador_write_block (ex_compressor 0) (ex_parse [(2, 1), (0, 0), (0, 0)])
        (ex_window [0x41, 0x41, 0x41]) 0 3 w_empty 16 0 1 3) = - 1"
proof -
  have h1: "reaches_match 1 (wb_consts (ex_compressor 0) (ex_parse [(0, 0), (2, 0), (0, 0)])
        (ex_window [0x41, 0x42, 0x42]) 0 3 16 3)
     (wb_init (ex_compressor 0) 0 w_empty 0 1 3)
     (\<lambda>s. bad_offset (wb_consts (ex_compressor 0) (ex_parse [(0, 0), (2, 0), (0, 0)])
             (ex_window [0x41, 0x42, 0x42]) 0 3 16 3) s \<or>
          (nIsFirstCommand s \<noteq> 0 \<and> nNumLiterals s = 0))"
    by code_simp
  have h2: "(3::int) AND 1 \<noteq> 0 \<and> (0::int) < 3 \<and> 2 \<le> length_fm (ex_parse [(2, 1), (0, 0), (0, 0)] 0)"
    by code_simp
  from format_violation_returns_minus_one[of 1 "ex_compressor 0" "ex_parse [(0, 0), (2, 0), (0, 0)]"
      "ex_window [0x41, 0x42, 0x42]" 0 3 16 3 w_empty 0 1] h1
  have c1: "ret (salvador_write_block (ex_compressor 0) (ex_parse [(0, 0), (2, 0), (0, 0)])
        (ex_window [0x41, 0x42, 0x42]) 0 3 w_empty 16 0 1 3) = - 1"
    by blast
  from format_violation_returns_minus_one[of 0 "ex_compressor 0" "ex_parse [(2, 1), (0, 0), (0, 0)]"
      "ex_window [0x41, 0x41, 0x41]" 0 3 16 3 w_empty 0 1] h2
  have c2: "ret (salvador_write_block (ex_compressor 0) (ex_parse [(2, 1), (0, 0), (0, 0)])
        (ex_window [0x41, 0x41, 0x41]) 0 3 w_empty 16 0 1 3) = - 1"
    by blast
  from h1 h2 c1 c2 show ?thesis by blast
qed

subsection \<open>What a match turn of the emitter writes\<close>

lemma match_literals_fields:
  "wb_match_literals c s = Inr s1 \<Longrightarrow>
     nRepMatchOffset s1 = nRepMatchOffset s \<and> nNumLiterals s1 = nNumLiterals s \<and> i_pos s1 = i_pos s"
  by (auto simp: wb_match_literals_def wb_literals_def wb_literals_payload_def Let_def
      split: if_splits)

lemma rep_match_writes:
  "wb_rep_match c (L - 2) s1 = Inr s2 \<Longrightarrow>
     s2 = s1\<lparr>wr := spec_rep_command (wr s1) (nMaxOutDataSize c) L\<rparr>"
  by (auto simp: wb_rep_match_def salvador_write_match_varlen_def write_elias_value_None
      spec_rep_command_def Let_def split: if_splits)

lemma offset_match_writes:
  assumes "wb_offset_match c off (L - 2) s1 = Inr s2"
  shows "s2 = s1\<lparr>wr := spec_offset_command (wr s1) (nMaxOutDataSize c) (nIsInverted c \<noteq> 0) off L\<rparr>"
proof -
  let ?m = "nMaxOutDataSize c"
  let ?w1 = "salvador_write_bits (wr s1) ?m 1 1"
  let ?w2 = "salvador_write_elias_value ?w1 ?m (((off - 1) div 128) + 1) (nIsInverted c) None"
  let ?w3 = "?w2\<lparr>pOutData := (pOutData ?w2)(nOutOffset ?w2 := low_offset_byte off),
                 nOutOffset := nOutOffset ?w2 + 1\<rparr>"
  let ?w4 = "salvador_write_match_varlen ?w3 ?m (L - 2) 0 (Some (nOutOffset ?w2))"
  let ?g = "elias_gamma_bits False (L - 1)"
  from assms have s2: "s2 = s1\<lparr>wr := ?w4\<rparr>"
    by (auto simp: wb_offset_match_def Let_def split: if_splits)
  have e2: "?w2 = write_bit_seq (wr s1) ?m
                     (True # elias_gamma_bits (nIsInverted c \<noteq> 0) (((off - 1) div 128) + 1))"
    by (simp add: write_elias_value_None)
  have e4: "?w4 = write_bit_seq
              (?w3\<lparr>pOutData := (pOutData ?w3)(nOutOffset ?w2 :=
                          (pOutData ?w3 (nOutOffset ?w2) AND 0xfe) OR of_bool (hd ?g))\<rparr>) ?m (tl ?g)"
    unfolding salvador_write_match_varlen_def
    using write_elias_value_Some[of ?w3 ?m "L - 1" 0 "nOutOffset ?w2"] by simp
  have e3: "?w3\<lparr>pOutData := (pOutData ?w3)(nOutOffset ?w2 :=
                          (pOutData ?w3 (nOutOffset ?w2) AND 0xfe) OR of_bool (hd ?g))\<rparr>
            = ?w2\<lparr>pOutData := (pOutData ?w2)(nOutOffset ?w2 :=
                                  (low_offset_byte off AND 0xfe) OR of_bool (hd ?g)),
                     nOutOffset := nOutOffset ?w2 + 1\<rparr>"
    by simp
  show ?thesis
    unfolding s2 e4 e3 spec_offset_command_def Let_def e2[symmetric] ..
qed

lemma wb_step_command:
  assumes m: "wb_is_match c s" and st: "wb_step c s = Inr s'"
  shows "\<exists>s1. wb_match_literals c s = Inr s1 \<and>
           (if emits_rep c s
            then wr s' = spec_rep_command (wr s1) (nMaxOutDataSize c)
                           (length_fm (pBestMatch c (i_pos s)))
            else wr s' = spec_offset_command (wr s1) (nMaxOutDataSize c) (nIsInverted c \<noteq> 0)
                           (offset_fm (pBestMatch c (i_pos s)))
                           (length_fm (pBestMatch c (i_pos s))))"
proof -
  let ?off = "offset_fm (pBestMatch c (i_pos s))"
  let ?L = "length_fm (pBestMatch c (i_pos s))"
  from m st have wm: "wb_match c s = Inr s'" by (simp add: wb_step_def)
  then obtain s1 s2 where l: "wb_match_literals c s = Inr s1"
    and cm: "wb_match_command c ?off (?L - 2) s1 = Inr s2"
    and d: "s' = wb_match_done c ?off ?L s2"
    by (auto simp: wb_match_def Let_def split: if_splits sum.splits)
  note f = match_literals_fields[OF l]
  have w: "wr s' = wr s2" using d by (simp add: wb_match_done_def Let_def)
  show ?thesis
  proof (cases "emits_rep c s")
    case True
    with f have "?off = nRepMatchOffset s1 \<and> nNumLiterals s1 \<noteq> 0" by (simp add: emits_rep_def)
    with cm have "wb_rep_match c (?L - 2) s1 = Inr s2" by (simp add: wb_match_command_def)
    from rep_match_writes[OF this] w l True show ?thesis by simp
  next
    case False
    with f have "\<not> (?off = nRepMatchOffset s1 \<and> nNumLiterals s1 \<noteq> 0)" by (simp add: emits_rep_def)
    with cm have "wb_offset_match c ?off (?L - 2) s1 = Inr s2" by (simp add: wb_match_command_def)
    from offset_match_writes[OF this] w l False show ?thesis by simp
  qed
qed

lemma Inr_st_of: "(case r of Inl e \<Rightarrow> False | Inr x \<Rightarrow> True) \<Longrightarrow> r = Inr (st_of r)"
  by (cases r) simp_all

lemma reaches_matchD: "reaches_match n c s0 P \<Longrightarrow> wb_turns n c s0 = Inr s \<Longrightarrow> P s"
  by (simp add: reaches_match_def)

subsection \<open>Claim C3: the lengths of the match commands\<close>

text \<open>
  Claim C3, as stated, fails: a rep match may have length 1. The block \<open>41 41 42\<close> parsed
  as a literal, a match of length 1 at the rep offset 1, and a literal is emitted without
  error in five bytes; after one turn the loop is at a match command of length 1 that is
  written as a rep match, and the smallest match length in the statistics is 1.
\<close>

theorem match_length_one_counterexample:
  "ret (salvador_write_block (ex_compressor 0) (ex_parse [(0, 0), (1, 1), (0, 0)])
        (ex_window [0x41, 0x41, 0x42]) 0 3 w_empty 16 0 1 3) = 5
   \<and> out_bytes (salvador_write_block (ex_compressor 0) (ex_parse [(0, 0), (1, 1), (0, 0)])
        (ex_window [0x41, 0x41, 0x42]) 0 3 w_empty 16 0 1 3) = [0xac, 0x41, 0x42, 0, 2]
   \<and> min_match_len (stats_out (salvador_write_block (ex_compressor 0)
        (ex_parse [(0, 0), (1, 1), (0, 0)]) (ex_window [0x41, 0x41, 0x42]) 0 3 w_empty 16 0 1 3)) = 1
   \<and> reaches_match 1 (wb_consts (ex_compressor 0) (ex_parse [(0, 0), (1, 1), (0, 0)])
        (ex_window [0x41, 0x41, 0x42]) 0 3 16 3) (wb_init (ex_compressor 0) 0 w_empty 0 1 3)
        (\<lambda>s. length_fm (ex_parse [(0, 0), (1, 1), (0, 0)] (i_pos s)) = 1
             \<and> emits_rep (wb_consts (ex_compressor 0) (ex_parse [(0, 0), (1, 1), (0, 0)])
                  (ex_window [0x41, 0x41, 0x42]) 0 3 16 3) s)"
  by code_simp

text \<open>
  Claim C3, amended. At every match command that the emitter comes to, after any number of
  turns of its loop, the length is at least 1; and when the turn does not return \<open>-1\<close>,
  what it has written after the pending literals is either the rep match command of the
  spec for that length, or the match-with-offset command of the spec for that offset and
  length, and then the length is at least 2: only a rep match can have length 1.
  Accordingly the smallest match length in the statistics, when it was unset or at least 1
  before the block, is unset or at least 1 after it. (Literals, the final ones included,
  are not match commands.)
\<close>

theorem match_lengths:
  "(reaches_match n c s0 (\<lambda>s. True) \<longrightarrow>
      reaches_match n c s0 (\<lambda>s. 1 \<le> length_fm (pBestMatch c (i_pos s)) \<and>
         (\<forall>s'. wb_step c s = Inr s' \<longrightarrow>
            (\<exists>s1. wb_match_literals c s = Inr s1 \<and>
               (if emits_rep c s
                then wr s' = spec_rep_command (wr s1) (nMaxOutDataSize c)
                               (length_fm (pBestMatch c (i_pos s)))
                else wr s' = spec_offset_command (wr s1) (nMaxOutDataSize c) (nIsInverted c \<noteq> 0)
                               (offset_fm (pBestMatch c (i_pos s)))
                               (length_fm (pBestMatch c (i_pos s)))
                     \<and> 2 \<le> length_fm (pBestMatch c (i_pos s)))))))
   \<and> (mml_ok (stats pc) \<longrightarrow>
        mml_ok (stats_out (salvador_write_block pc bm win st en w mx fl0 rp fl)))"
proof (intro conjI impI)
  assume r: "reaches_match n c s0 (\<lambda>s. True)"
  then obtain s where t: "wb_turns n c s0 = Inr s" and i: "i_pos s < nEndOffset c"
    and m: "wb_is_match c s"
    by (auto simp: reaches_match_def split: sum.splits)
  let ?L = "length_fm (pBestMatch c (i_pos s))"
  from is_match_lengths[OF m] have len: "1 \<le> ?L" "\<not> emits_rep c s \<longrightarrow> 2 \<le> ?L" by simp_all
  have "\<forall>s'. wb_step c s = Inr s' \<longrightarrow>
            (\<exists>s1. wb_match_literals c s = Inr s1 \<and>
               (if emits_rep c s
                then wr s' = spec_rep_command (wr s1) (nMaxOutDataSize c) ?L
                else wr s' = spec_offset_command (wr s1) (nMaxOutDataSize c) (nIsInverted c \<noteq> 0)
                               (offset_fm (pBestMatch c (i_pos s))) ?L
                     \<and> 2 \<le> ?L))"
  proof (intro allI impI)
    fix s' :: wb_state
    assume st: "wb_step c s = Inr s'"
    from wb_step_command[OF m st] len
    show "\<exists>s1. wb_match_literals c s = Inr s1 \<and>
               (if emits_rep c s
                then wr s' = spec_rep_command (wr s1) (nMaxOutDataSize c) ?L
                else wr s' = spec_offset_command (wr s1) (nMaxOutDataSize c) (nIsInverted c \<noteq> 0)
                               (offset_fm (pBestMatch c (i_pos s))) ?L
                     \<and> 2 \<le> ?L)"
      by (cases "emits_rep c s") auto
  qed
  with t i m len(1)
  show "reaches_match n c s0 (\<lambda>s. 1 \<le> length_fm (pBestMatch c (i_pos s)) \<and>
         (\<forall>s'. wb_step c s = Inr s' \<longrightarrow>
            (\<exists>s1. wb_match_literals c s = Inr s1 \<and>
               (if emits_rep c s
                then wr s' = spec_rep_command (wr s1) (nMaxOutDataSize c)
                               (length_fm (pBestMatch c (i_pos s)))
                else wr s' = spec_offset_command (wr s1) (nMaxOutDataSize c) (nIsInverted c \<noteq> 0)
                               (offset_fm (pBestMatch c (i_pos s)))
                               (length_fm (pBestMatch c (i_pos s)))
                     \<and> 2 \<le> length_fm (pBestMatch c (i_pos s))))))"
    by (simp add: reaches_match_def)
next
  assume "mml_ok (stats pc)"
  then show "mml_ok (stats_out (salvador_write_block pc bm win st en w mx fl0 rp fl))"
    by (rule write_block_mml)
qed

text \<open>
  Two instances: in \<open>AAB\<close> the second turn writes the rep match command of length 1, in
  \<open>ABAB\<close> the third turn writes the match-with-offset command of offset 2 and length 2.
\<close>

theorem match_lengths_witness:
  "reaches_match 1 ex_aab ex_start (\<lambda>s. True)
   \<and> emits_rep ex_aab (ex_after 1 ex_aab)
   \<and> length_fm (pBestMatch ex_aab (i_pos (ex_after 1 ex_aab))) = 1
   \<and> wr (st_of (wb_step ex_aab (ex_after 1 ex_aab)))
       = spec_rep_command (wr (st_of (wb_match_literals ex_aab (ex_after 1 ex_aab)))) 16 1
   \<and> reaches_match 2 ex_abab ex_start (\<lambda>s. True)
   \<and> \<not> emits_rep ex_abab (ex_after 2 ex_abab)
   \<and> wr (st_of (wb_step ex_abab (ex_after 2 ex_abab)))
       = spec_offset_command (wr (st_of (wb_match_literals ex_abab (ex_after 2 ex_abab)))) 16 False 2 2
   \<and> 2 \<le> length_fm (pBestMatch ex_abab (i_pos (ex_after 2 ex_abab)))
   \<and> mml_ok (stats (ex_compressor 0))
   \<and> mml_ok (stats_out (salvador_write_block (ex_compressor 0) (ex_parse [(0, 0), (1, 1), (0, 0)])
        (ex_window [0x41, 0x41, 0x42]) 0 3 w_empty 16 0 1 3))"
proof -
  let ?s = "ex_after 1 ex_aab" and ?t = "ex_after 2 ex_abab"
  let ?P = "\<lambda>c s. 1 \<le> length_fm (pBestMatch c (i_pos s)) \<and>
         (\<forall>s'. wb_step c s = Inr s' \<longrightarrow>
            (\<exists>s1. wb_match_literals c s = Inr s1 \<and>
               (if emits_rep c s
                then wr s' = spec_rep_command (wr s1) (nMaxOutDataSize c)
                               (length_fm (pBestMatch c (i_pos s)))
                else wr s' = spec_offset_command (wr s1) (nMaxOutDataSize c) (nIsInverted c \<noteq> 0)
                               (offset_fm (pBestMatch c (i_pos s)))
                               (length_fm (pBestMatch c (i_pos s)))
                     \<and> 2 \<le> length_fm (pBestMatch c (i_pos s)))))"
  have h1: "reaches_match 1 ex_aab ex_start (\<lambda>s. True)"
    and h2: "reaches_match 2 ex_abab ex_start (\<lambda>s. True)"
    and h3: "mml_ok (stats (ex_compressor 0))"
    and r1: "emits_rep ex_aab ?s" and r2: "\<not> emits_rep ex_abab ?t"
    by code_simp+
  have "case wb_turns 1 ex_aab ex_start of Inl e \<Rightarrow> False | Inr x \<Rightarrow> True" by code_simp
  then have t1: "wb_turns 1 ex_aab ex_start = Inr ?s" unfolding ex_after_def by (rule Inr_st_of)
  have "case wb_turns 2 ex_abab ex_start of Inl e \<Rightarrow> False | Inr x \<Rightarrow> True" by code_simp
  then have t2: "wb_turns 2 ex_abab ex_start = Inr ?t" unfolding ex_after_def by (rule Inr_st_of)
  have "case wb_step ex_aab ?s of Inl e \<Rightarrow> False | Inr x \<Rightarrow> True" by code_simp
  then have st1: "wb_step ex_aab ?s = Inr (st_of (wb_step ex_aab ?s))" by (rule Inr_st_of)
  have "case wb_step ex_abab ?t of Inl e \<Rightarrow> False | Inr x \<Rightarrow> True" by code_simp
  then have st2: "wb_step ex_abab ?t = Inr (st_of (wb_step ex_abab ?t))" by (rule Inr_st_of)
  have v1: "length_fm (pBestMatch ex_aab (i_pos ?s)) = 1" "nMaxOutDataSize ex_aab = 16"
    and v2: "length_fm (pBestMatch ex_abab (i_pos ?t)) = 2" "nMaxOutDataSize ex_abab = 16"
      "offset_fm (pBestMatch ex_abab (i_pos ?t)) = 2" "(nIsInverted ex_abab \<noteq> 0) = False"
    by code_simp+
  note th1 = match_lengths[of 1 ex_aab ex_start "ex_compressor 0" "ex_parse [(0, 0), (1, 1), (0, 0)]"
      "ex_window [0x41, 0x41, 0x42]" 0 3 w_empty 16 0 1 3]
  note th2 = match_lengths[of 2 ex_abab ex_start "ex_compressor 0" "ex_parse [(0, 0), (1, 1), (0, 0)]"
      "ex_window [0x41, 0x41, 0x42]" 0 3 w_empty 16 0 1 3]
  from th1 h1 have "reaches_match 1 ex_aab ex_start (?P ex_aab)" by blast
  from reaches_matchD[OF this t1] have p1: "?P ex_aab ?s" .
  from th2 h2 have "reaches_match 2 ex_abab ex_start (?P ex_abab)" by blast
  from reaches_matchD[OF this t2] have p2: "?P ex_abab ?t" .
  from p1 st1 obtain s1 where a: "wb_match_literals ex_aab ?s = Inr s1"
    and b: "if emits_rep ex_aab ?s
            then wr (st_of (wb_step ex_aab ?s)) = spec_rep_command (wr s1) (nMaxOutDataSize ex_aab)
                               (length_fm (pBestMatch ex_aab (i_pos ?s)))
            else wr (st_of (wb_step ex_aab ?s)) = spec_offset_command (wr s1) (nMaxOutDataSize ex_aab)
                               (nIsInverted ex_aab \<noteq> 0)
                               (offset_fm (pBestMatch ex_aab (i_pos ?s)))
                               (length_fm (pBestMatch ex_aab (i_pos ?s)))
                     \<and> 2 \<le> length_fm (pBestMatch ex_aab (i_pos ?s))"
    by blast
  from a have a': "st_of (wb_match_literals ex_aab ?s) = s1" by simp
  from b r1 have c1: "wr (st_of (wb_step ex_aab ?s))
       = spec_rep_command (wr (st_of (wb_match_literals ex_aab ?s))) 16 1"
    unfolding v1 a' by simp
  from p2 st2 obtain u1 where d: "wb_match_literals ex_abab ?t = Inr u1"
    and e: "if emits_rep ex_abab ?t
            then wr (st_of (wb_step ex_abab ?t)) = spec_rep_command (wr u1) (nMaxOutDataSize ex_abab)
                               (length_fm (pBestMatch ex_abab (i_pos ?t)))
            else wr (st_of (wb_step ex_abab ?t)) = spec_offset_command (wr u1) (nMaxOutDataSize ex_abab)
                               (nIsInverted ex_abab \<noteq> 0)
                               (offset_fm (pBestMatch ex_abab (i_pos ?t)))
                               (length_fm (pBestMatch ex_abab (i_pos ?t)))
                     \<and> 2 \<le> length_fm (pBestMatch ex_abab (i_pos ?t))"
    by blast
  from d have d': "st_of (wb_match_literals ex_abab ?t) = u1" by simp
  from e r2 have "wr (st_of (wb_step ex_abab ?t)) = spec_offset_command (wr u1) (nMaxOutDataSize ex_abab)
                               (nIsInverted ex_abab \<noteq> 0)
                               (offset_fm (pBestMatch ex_abab (i_pos ?t)))
                               (length_fm (pBestMatch ex_abab (i_pos ?t)))
                     \<and> 2 \<le> length_fm (pBestMatch ex_abab (i_pos ?t))" by simp
  then have c2: "wr (st_of (wb_step ex_abab ?t))
       = spec_offset_command (wr (st_of (wb_match_literals ex_abab ?t))) 16 False 2 2"
    and c3: "2 \<le> length_fm (pBestMatch ex_abab (i_pos ?t))"
    unfolding v2(2-4) d' by (simp_all add: v2(1))
  from th1 h3 have c4: "mml_ok (stats_out (salvador_write_block (ex_compressor 0)
        (ex_parse [(0, 0), (1, 1), (0, 0)]) (ex_window [0x41, 0x41, 0x42]) 0 3 w_empty 16 0 1 3))"
    by blast
  from h1 r1 v1(1) c1 h2 r2 c2 c3 h3 c4 show ?thesis by blast
qed

subsection \<open>Claim C4: the length codes of the match commands\<close>

text \<open>
  Claim C4, as stated, fails: a rep match of length 2 is written with the gamma code of 2,
  which is 0 0 1, and not with the code of \<open>2 - 1\<close>, which is the single bit 1. The first
  byte of the rep match command alone is \<open>0x10\<close> (token 0, then 0 0 1). In the block
  \<open>AAA\<close>, parsed as a literal and a rep match of length 2, the first byte is \<open>0x8c\<close>: the
  literal count 1, the rep token 0, the length code 0 0 1, and the end-of-data token.
\<close>

theorem rep_match_length_counterexample:
  "(case wb_rep_match (ex_const (ex_parse []) (ex_window []) 0 16 3) (2 - 2) (ex_state w_empty) of
      Inl e \<Rightarrow> [] | Inr s \<Rightarrow> [pOutData (wr s) 0]) = [0x10]
   \<and> elias_gamma_bits False 2 = [False, False, True]
   \<and> elias_gamma_bits False (2 - 1) = [True]
   \<and> out_bytes (salvador_write_block (ex_compressor 0) (ex_parse [(0, 0), (2, 1), (0, 0)])
        (ex_window [0x41, 0x41, 0x41]) 0 3 w_empty 16 0 1 3) = [0x8c, 0x41, 0, 2]"
  by code_simp

text \<open>
  Claim C4, amended. Whenever a turn of the emitter writes a match of length \<open>L\<close> (the
  length that the parse holds at the position, from which line 1150 computes the encoded
  length), what it has written after the pending literals is, for a rep match, the token 0
  and the gamma code of \<open>L\<close> itself and, for a match with offset, the token 1, the high
  part of the offset, the low byte and the gamma code of \<open>L - 1\<close>. Read back, the codes give
  \<open>L\<close> and \<open>L - 1\<close>.
\<close>

theorem rep_match_gamma_is_length:
  "wb_is_match c s \<longrightarrow> wb_step c s = Inr s' \<longrightarrow>
     (\<exists>s1. wb_match_literals c s = Inr s1 \<and>
        (if emits_rep c s
         then wr s' = spec_rep_command (wr s1) (nMaxOutDataSize c)
                        (length_fm (pBestMatch c (i_pos s)))
              \<and> gamma_value False 1 (elias_gamma_bits False (length_fm (pBestMatch c (i_pos s))))
                  = length_fm (pBestMatch c (i_pos s))
         else wr s' = spec_offset_command (wr s1) (nMaxOutDataSize c) (nIsInverted c \<noteq> 0)
                        (offset_fm (pBestMatch c (i_pos s))) (length_fm (pBestMatch c (i_pos s)))
              \<and> gamma_value False 1 (elias_gamma_bits False (length_fm (pBestMatch c (i_pos s)) - 1))
                  = length_fm (pBestMatch c (i_pos s)) - 1))"
proof (intro impI)
  assume m: "wb_is_match c s" and st: "wb_step c s = Inr s'"
  let ?L = "length_fm (pBestMatch c (i_pos s))"
  from wb_step_command[OF m st] obtain s1 where l: "wb_match_literals c s = Inr s1"
    and w: "if emits_rep c s
            then wr s' = spec_rep_command (wr s1) (nMaxOutDataSize c) ?L
            else wr s' = spec_offset_command (wr s1) (nMaxOutDataSize c) (nIsInverted c \<noteq> 0)
                           (offset_fm (pBestMatch c (i_pos s))) ?L"
    by blast
  from is_match_lengths[OF m] have len: "1 \<le> ?L" "\<not> emits_rep c s \<longrightarrow> 2 \<le> ?L" by simp_all
  show "\<exists>s1. wb_match_literals c s = Inr s1 \<and>
        (if emits_rep c s
         then wr s' = spec_rep_command (wr s1) (nMaxOutDataSize c) ?L
              \<and> gamma_value False 1 (elias_gamma_bits False ?L) = ?L
         else wr s' = spec_offset_command (wr s1) (nMaxOutDataSize c) (nIsInverted c \<noteq> 0)
                        (offset_fm (pBestMatch c (i_pos s))) ?L
              \<and> gamma_value False 1 (elias_gamma_bits False (?L - 1)) = ?L - 1)"
  proof (cases "emits_rep c s")
    case True
    with l w len gamma_value_elias[of ?L False] show ?thesis by auto
  next
    case False
    with len have "1 \<le> ?L - 1" by simp
    from gamma_value_elias[OF this, of False] l w False show ?thesis by auto
  qed
qed

text \<open>
  Two instances: the rep match of length 2 of \<open>AAA\<close>, written with the code of 2, and the
  match with offset of length 2 of \<open>ABAB\<close>, written with the code of 1.
\<close>

theorem rep_match_gamma_is_length_witness:
  "wb_is_match ex_aaa (ex_after 1 ex_aaa) \<and> emits_rep ex_aaa (ex_after 1 ex_aaa)
   \<and> wb_step ex_aaa (ex_after 1 ex_aaa) = Inr (st_of (wb_step ex_aaa (ex_after 1 ex_aaa)))
   \<and> wr (st_of (wb_step ex_aaa (ex_after 1 ex_aaa)))
       = spec_rep_command (wr (st_of (wb_match_literals ex_aaa (ex_after 1 ex_aaa)))) 16 2
   \<and> gamma_value False 1 (elias_gamma_bits False 2) = 2
   \<and> wb_is_match ex_abab (ex_after 2 ex_abab) \<and> \<not> emits_rep ex_abab (ex_after 2 ex_abab)
   \<and> wb_step ex_abab (ex_after 2 ex_abab) = Inr (st_of (wb_step ex_abab (ex_after 2 ex_abab)))
   \<and> wr (st_of (wb_step ex_abab (ex_after 2 ex_abab)))
       = spec_offset_command (wr (st_of (wb_match_literals ex_abab (ex_after 2 ex_abab)))) 16 False 2 2
   \<and> gamma_value False 1 (elias_gamma_bits False (2 - 1)) = 2 - 1"
proof -
  let ?s = "ex_after 1 ex_aaa" and ?t = "ex_after 2 ex_abab"
  have m1: "wb_is_match ex_aaa ?s" and r1: "emits_rep ex_aaa ?s"
    and m2: "wb_is_match ex_abab ?t" and r2: "\<not> emits_rep ex_abab ?t"
    by code_simp+
  have "case wb_step ex_aaa ?s of Inl e \<Rightarrow> False | Inr x \<Rightarrow> True" by code_simp
  then have st1: "wb_step ex_aaa ?s = Inr (st_of (wb_step ex_aaa ?s))" by (rule Inr_st_of)
  have "case wb_step ex_abab ?t of Inl e \<Rightarrow> False | Inr x \<Rightarrow> True" by code_simp
  then have st2: "wb_step ex_abab ?t = Inr (st_of (wb_step ex_abab ?t))" by (rule Inr_st_of)
  have v1: "length_fm (pBestMatch ex_aaa (i_pos ?s)) = 2" "nMaxOutDataSize ex_aaa = 16"
    and v2: "length_fm (pBestMatch ex_abab (i_pos ?t)) = 2" "nMaxOutDataSize ex_abab = 16"
      "offset_fm (pBestMatch ex_abab (i_pos ?t)) = 2" "(nIsInverted ex_abab \<noteq> 0) = False"
    by code_simp+
  from rep_match_gamma_is_length[of ex_aaa ?s "st_of (wb_step ex_aaa ?s)"] m1 st1
  obtain s1 where a: "wb_match_literals ex_aaa ?s = Inr s1"
    and b: "if emits_rep ex_aaa ?s
         then wr (st_of (wb_step ex_aaa ?s)) = spec_rep_command (wr s1) (nMaxOutDataSize ex_aaa)
                        (length_fm (pBestMatch ex_aaa (i_pos ?s)))
              \<and> gamma_value False 1 (elias_gamma_bits False (length_fm (pBestMatch ex_aaa (i_pos ?s))))
                  = length_fm (pBestMatch ex_aaa (i_pos ?s))
         else wr (st_of (wb_step ex_aaa ?s)) = spec_offset_command (wr s1) (nMaxOutDataSize ex_aaa)
                        (nIsInverted ex_aaa \<noteq> 0)
                        (offset_fm (pBestMatch ex_aaa (i_pos ?s))) (length_fm (pBestMatch ex_aaa (i_pos ?s)))
              \<and> gamma_value False 1 (elias_gamma_bits False (length_fm (pBestMatch ex_aaa (i_pos ?s)) - 1))
                  = length_fm (pBestMatch ex_aaa (i_pos ?s)) - 1"
    by blast
  from a have a': "st_of (wb_match_literals ex_aaa ?s) = s1" by simp
  from b r1 have c1: "wr (st_of (wb_step ex_aaa ?s))
       = spec_rep_command (wr (st_of (wb_match_literals ex_aaa ?s))) 16 2
     \<and> gamma_value False 1 (elias_gamma_bits False 2) = 2"
    unfolding v1 a' by simp
  from rep_match_gamma_is_length[of ex_abab ?t "st_of (wb_step ex_abab ?t)"] m2 st2
  obtain t1 where d: "wb_match_literals ex_abab ?t = Inr t1"
    and e: "if emits_rep ex_abab ?t
         then wr (st_of (wb_step ex_abab ?t)) = spec_rep_command (wr t1) (nMaxOutDataSize ex_abab)
                        (length_fm (pBestMatch ex_abab (i_pos ?t)))
              \<and> gamma_value False 1 (elias_gamma_bits False (length_fm (pBestMatch ex_abab (i_pos ?t))))
                  = length_fm (pBestMatch ex_abab (i_pos ?t))
         else wr (st_of (wb_step ex_abab ?t)) = spec_offset_command (wr t1) (nMaxOutDataSize ex_abab)
                        (nIsInverted ex_abab \<noteq> 0)
                        (offset_fm (pBestMatch ex_abab (i_pos ?t))) (length_fm (pBestMatch ex_abab (i_pos ?t)))
              \<and> gamma_value False 1 (elias_gamma_bits False (length_fm (pBestMatch ex_abab (i_pos ?t)) - 1))
                  = length_fm (pBestMatch ex_abab (i_pos ?t)) - 1"
    by blast
  from d have d': "st_of (wb_match_literals ex_abab ?t) = t1" by simp
  from e r2 have c2: "wr (st_of (wb_step ex_abab ?t))
       = spec_offset_command (wr (st_of (wb_match_literals ex_abab ?t))) 16 False 2 2
     \<and> gamma_value False 1 (elias_gamma_bits False (2 - 1)) = 2 - 1"
    unfolding v2 d' by simp
  from m1 r1 st1 c1 m2 r2 st2 c2 show ?thesis by blast
qed

subsection \<open>When salvador_write_bits fails\<close>






subsection \<open>No write at or beyond the capacity\<close>




























subsection \<open>Claim C7: output overflow\<close>



subsection \<open>Claim C9: the first supplementation pass\<close>

text \<open>
  Claim C9 against the code: the length of a match inserted by the first pass is not
  capped at 128. The loop that compares four bytes at a time tests \<open>nMatchLen < 128\<close>
  before it adds 4, and the length runs 2, 6, ..., 126, 130. In the block \<open>41 42 41 42 ...\<close>
  of 136 bytes the match finder lists the offset 2 at position 4; the pass walks the chain
  of position 4 (positions 2 and 0), finds the offset 4 missing and inserts it, as the
  second entry, with length 130 and depth \<open>0x4000\<close>.
\<close>

theorem supplement_length_130:
  "(let ch = build_chains ex_window_ab 0 136 0 chains_init in
    case supplement_position 6 ex_window_ab (next_offset_for_pos ch) 0 136 32640 4 ex_tables of
      None \<Rightarrow> []
    | Some st \<Rightarrow> [(m_idx st, nInserted st, length_m (match (tables st) 257),
                    offset_m (match (tables st) 257), match_depth (tables st) 257)])
   = [(2, 1, 130, 4, 0x4000)]"
  by code_simp

subsection \<open>Claim C8: the arrival table stays dense and sorted\<close>

lemma akey_le_refl: "akey_le a a"
  by (simp add: akey_le_def)

lemma akey_le_trans: "akey_le a b \<Longrightarrow> akey_le b c \<Longrightarrow> akey_le a c"
  by (auto simp: akey_le_def)

lemma scan_cheaper_result:
  assumes stop: "\<not> cost (D (b + cmp)) < c"
  shows "n0 \<le> cmp \<Longrightarrow>
     \<exists>n e. scan_cheaper D b c r n0 = Some (n, e) \<and> n0 \<le> n \<and> n \<le> cmp \<and>
           (\<forall>j. n0 \<le> j \<and> j < n \<longrightarrow> cost (D (b + j)) < c) \<and>
           (\<not> e \<longrightarrow> \<not> cost (D (b + n)) < c)"
proof (induction "nat (cmp - n0)" arbitrary: n0)
  case 0
  then have "n0 = cmp" by simp
  then show ?case using stop by (subst scan_cheaper.simps) auto
next
  case (Suc k)
  show ?case
  proof (cases "cost (D (b + n0)) < c")
    case False
    then show ?thesis using Suc.prems by (subst scan_cheaper.simps) auto
  next
    case True
    show ?thesis
    proof (cases "rep_offset (D (b + n0)) = r")
      case t: True
      then show ?thesis using True Suc.prems by (subst scan_cheaper.simps) auto
    next
      case False
      from Suc(2) have k: "k = nat (cmp - (n0 + 1))" and le: "n0 + 1 \<le> cmp" by linarith+
      from Suc(1)[OF k le] obtain n e where
        r: "scan_cheaper D b c r (n0 + 1) = Some (n, e)" "n0 + 1 \<le> n" "n \<le> cmp"
          "\<forall>j. n0 + 1 \<le> j \<and> j < n \<longrightarrow> cost (D (b + j)) < c"
          "\<not> e \<longrightarrow> \<not> cost (D (b + n)) < c"
        by blast
      have "\<forall>j. n0 \<le> j \<and> j < n \<longrightarrow> cost (D (b + j)) < c"
      proof (intro allI impI)
        fix j assume "n0 \<le> j \<and> j < n"
        then show "cost (D (b + j)) < c" using r(4) True by (cases "j = n0") auto
      qed
      moreover have "scan_cheaper D b c r n0 = Some (n, e)"
        using True False r(1) by (subst scan_cheaper.simps) simp
      ultimately show ?thesis using r(2,3,5) by auto
    qed
  qed
qed

lemma scan_equal_result:
  assumes stop: "\<not> (cost (D (b + cmp)) = c \<and> s \<ge> score (D (b + cmp)))"
  shows "n0 \<le> cmp \<Longrightarrow>
     \<exists>n e. scan_equal D b c s r n0 = Some (n, e) \<and> n0 \<le> n \<and> n \<le> cmp \<and>
           (\<forall>j. n0 \<le> j \<and> j < n \<longrightarrow> cost (D (b + j)) = c \<and> score (D (b + j)) \<le> s) \<and>
           (\<not> e \<longrightarrow> \<not> (cost (D (b + n)) = c \<and> s \<ge> score (D (b + n))))"
proof (induction "nat (cmp - n0)" arbitrary: n0)
  case 0
  then have "n0 = cmp" by simp
  then show ?case using stop by (subst scan_equal.simps) auto
next
  case (Suc k)
  show ?case
  proof (cases "cost (D (b + n0)) = c \<and> s \<ge> score (D (b + n0))")
    case False
    then show ?thesis using Suc.prems by (subst scan_equal.simps) auto
  next
    case True
    show ?thesis
    proof (cases "rep_offset (D (b + n0)) = r")
      case t: True
      then show ?thesis using True Suc.prems by (subst scan_equal.simps) auto
    next
      case False
      from Suc(2) have k: "k = nat (cmp - (n0 + 1))" and le: "n0 + 1 \<le> cmp" by linarith+
      from Suc(1)[OF k le] obtain n e where
        r: "scan_equal D b c s r (n0 + 1) = Some (n, e)" "n0 + 1 \<le> n" "n \<le> cmp"
          "\<forall>j. n0 + 1 \<le> j \<and> j < n \<longrightarrow> cost (D (b + j)) = c \<and> score (D (b + j)) \<le> s"
          "\<not> e \<longrightarrow> \<not> (cost (D (b + n)) = c \<and> s \<ge> score (D (b + n)))"
        by blast
      have "\<forall>j. n0 \<le> j \<and> j < n \<longrightarrow> cost (D (b + j)) = c \<and> score (D (b + j)) \<le> s"
      proof (intro allI impI)
        fix j assume "n0 \<le> j \<and> j < n"
        then show "cost (D (b + j)) = c \<and> score (D (b + j)) \<le> s"
          using r(4) True by (cases "j = n0") auto
      qed
      moreover have "scan_equal D b c s r n0 = Some (n, e)"
        using True False r(1) by (subst scan_equal.simps) simp
      ultimately show ?thesis using r(2,3,5) by auto
    qed
  qed
qed

lemma scan_victim_result:
  "n \<le> K - 1 \<Longrightarrow>
     n \<le> scan_victim D b K r n \<and> scan_victim D b K r n \<le> K - 1 \<and>
     (\<forall>j. n \<le> j \<and> j < scan_victim D b K r n \<longrightarrow> from_slot (D (b + j)) \<noteq> 0)"
proof (induction D b K r n rule: scan_victim.induct)
  case (1 D b K r z)
  show ?case
  proof (cases "z < K - 1 \<and> from_slot (D (b + z)) \<noteq> 0 \<and> rep_offset (D (b + z)) \<noteq> r")
    case False
    then have "scan_victim D b K r z = z" by (subst scan_victim.simps) auto
    then show ?thesis using "1.prems" by simp
  next
    case True
    then have e: "scan_victim D b K r z = scan_victim D b K r (z + 1)"
      by (subst scan_victim.simps) auto
    from True have "z + 1 \<le> K - 1" by simp
    with "1.IH" True have ih: "z + 1 \<le> scan_victim D b K r (z + 1) \<and> scan_victim D b K r (z + 1) \<le> K - 1 \<and>
     (\<forall>j. z + 1 \<le> j \<and> j < scan_victim D b K r (z + 1) \<longrightarrow> from_slot (D (b + j)) \<noteq> 0)"
      by simp
    have "\<forall>j. z \<le> j \<and> j < scan_victim D b K r (z + 1) \<longrightarrow> from_slot (D (b + j)) \<noteq> 0"
    proof (intro allI impI)
      fix j assume "z \<le> j \<and> j < scan_victim D b K r (z + 1)"
      then show "from_slot (D (b + j)) \<noteq> 0" using ih True by (cases "j = z") auto
    qed
    then show ?thesis unfolding e using ih by auto
  qed
qed

lemma shift_in_at:
  "shift_in D b n z a (b + j) =
     (if j = n then a else if n < j \<and> j \<le> z then D (b + (j - 1)) else D (b + j))"
  by (simp add: shift_in_def add_diff_eq)

lemma shift_in_outside:
  "n \<le> z \<Longrightarrow> idx < b + n \<or> b + z < idx \<Longrightarrow> shift_in D b n z a idx = D idx"
  by (auto simp: shift_in_def)

lemma row_sortedD:
  "row_sorted K D b \<Longrightarrow> 0 \<le> j \<Longrightarrow> j \<le> j' \<Longrightarrow> j' < K \<Longrightarrow> akey_le (D (b + j)) (D (b + j'))"
  by (simp add: row_sorted_def)

lemma row_denseD:
  "row_dense K D b \<Longrightarrow> 0 \<le> j \<Longrightarrow> j \<le> j' \<Longrightarrow> j' < K \<Longrightarrow> from_slot (D (b + j')) \<noteq> 0
     \<Longrightarrow> from_slot (D (b + j)) \<noteq> 0"
  unfolding row_dense_def by blast

lemma shift_in_sorted:
  assumes srt: "row_sorted K D b" and n0: "0 \<le> n" "n \<le> z" "z \<le> K - 1"
    and lo: "\<And>j. 0 \<le> j \<Longrightarrow> j < n \<Longrightarrow> akey_le (D (b + j)) a"
    and hi: "akey_le a (D (b + n))"
  shows "row_sorted K (shift_in D b n z a) b"
  unfolding row_sorted_def
proof (intro allI impI)
  fix j j' assume h: "0 \<le> j \<and> j \<le> j' \<and> j' < K"
  have hi': "\<And>i. n \<le> i \<Longrightarrow> i < K \<Longrightarrow> akey_le a (D (b + i))"
    using akey_le_trans[OF hi row_sortedD[OF srt]] n0 by simp
  have s: "\<And>i i'. 0 \<le> i \<Longrightarrow> i \<le> i' \<Longrightarrow> i' < K \<Longrightarrow> akey_le (D (b + i)) (D (b + i'))"
    using row_sortedD[OF srt] by simp
  consider (a) "j < n" | (b) "j = n" | (c) "n < j" "j \<le> z" | (d) "z < j" by linarith
  then show "akey_le (shift_in D b n z a (b + j)) (shift_in D b n z a (b + j'))"
  proof cases
    case a
    consider (a1) "j' < n" | (a2) "j' = n" | (a3) "n < j'" "j' \<le> z" | (a4) "z < j'" by linarith
    then show ?thesis
    proof cases
      case a1 then show ?thesis using a h s[of j j'] by (simp add: shift_in_at)
    next
      case a2 then show ?thesis using a h lo[of j] by (simp add: shift_in_at)
    next
      case a3 then show ?thesis using a h s[of j "j' - 1"] by (simp add: shift_in_at)
    next
      case a4 then show ?thesis using a h n0 s[of j j'] by (simp add: shift_in_at)
    qed
  next
    case b
    consider (b2) "j' = n" | (b3) "n < j'" "j' \<le> z" | (b4) "z < j'" using b h by linarith
    then show ?thesis
    proof cases
      case b2 then show ?thesis using b by (simp add: shift_in_at akey_le_refl)
    next
      case b3 then show ?thesis using b h hi'[of "j' - 1"] by (simp add: shift_in_at)
    next
      case b4 then show ?thesis using b h n0 hi'[of j'] by (simp add: shift_in_at)
    qed
  next
    case c
    consider (c3) "j' \<le> z" | (c4) "z < j'" by linarith
    then show ?thesis
    proof cases
      case c3 then show ?thesis using c h n0 s[of "j - 1" "j' - 1"] by (simp add: shift_in_at)
    next
      case c4 then show ?thesis using c h n0 s[of "j - 1" j'] by (simp add: shift_in_at)
    qed
  next
    case d
    then show ?thesis using h n0 s[of j j'] by (simp add: shift_in_at)
  qed
qed

lemma shift_in_dense:
  assumes dns: "row_dense K D b" and n0: "0 \<le> n" "n \<le> z" "z \<le> K - 1"
    and lo: "\<And>j. 0 \<le> j \<Longrightarrow> j < n \<Longrightarrow> from_slot (D (b + j)) \<noteq> 0"
    and mid: "\<And>j. n \<le> j \<Longrightarrow> j < z \<Longrightarrow> from_slot (D (b + j)) \<noteq> 0"
    and a: "from_slot a \<noteq> 0"
  shows "row_dense K (shift_in D b n z a) b"
  unfolding row_dense_def
proof (intro allI impI)
  fix j j' assume h: "0 \<le> j \<and> j \<le> j' \<and> j' < K \<and> from_slot (shift_in D b n z a (b + j')) \<noteq> 0"
  consider (a) "j < n" | (b) "j = n" | (c) "n < j" "j \<le> z" | (d) "z < j" by linarith
  then show "from_slot (shift_in D b n z a (b + j)) \<noteq> 0"
  proof cases
    case a then show ?thesis using h lo[of j] by (simp add: shift_in_at)
  next
    case b then show ?thesis using a by (simp add: shift_in_at)
  next
    case c then show ?thesis using mid[of "j - 1"] by (simp add: shift_in_at)
  next
    case d
    with h n0 have j': "z < j'" "j' \<noteq> n" "j \<noteq> n" "\<not> j \<le> z" "\<not> j' \<le> z" by linarith+
    from h have "from_slot (D (b + j')) \<noteq> 0" using j' by (simp add: shift_in_at)
    from row_denseD[OF dns _ _ _ this, of j] h show ?thesis using j' by (simp add: shift_in_at)
  qed
qed

lemma shift_in_slots:
  assumes sl: "row_slots N K D b" and n0: "0 \<le> n" "n \<le> z" "z \<le> K - 1"
    and mid: "\<And>j. n \<le> j \<Longrightarrow> j < z \<Longrightarrow> from_slot (D (b + j)) \<noteq> 0"
    and a: "from_slot a \<noteq> 0" "cost a < BIG_COST" "0 \<le> score a"
  shows "row_slots N K (shift_in D b n z a) b"
  unfolding row_slots_def
proof (intro allI impI)
  fix j assume h: "0 \<le> j \<and> j < N"
  from sl have s: "\<And>i. 0 \<le> i \<Longrightarrow> i < N \<Longrightarrow>
        0 \<le> score (D (b + i)) \<and>
        (from_slot (D (b + i)) = 0 \<longrightarrow> cost (D (b + i)) = BIG_COST \<and> score (D (b + i)) = 0) \<and>
        (from_slot (D (b + i)) \<noteq> 0 \<longrightarrow> cost (D (b + i)) < BIG_COST) \<and>
        (K \<le> i \<longrightarrow> from_slot (D (b + i)) = 0)"
    by (simp add: row_slots_def)
  consider (b) "j = n" | (c) "n < j" "j \<le> z" | (d1) "j < n" | (d2) "z < j" by linarith
  then show "0 \<le> score (shift_in D b n z a (b + j)) \<and>
        (from_slot (shift_in D b n z a (b + j)) = 0 \<longrightarrow>
           cost (shift_in D b n z a (b + j)) = BIG_COST \<and> score (shift_in D b n z a (b + j)) = 0) \<and>
        (from_slot (shift_in D b n z a (b + j)) \<noteq> 0 \<longrightarrow> cost (shift_in D b n z a (b + j)) < BIG_COST) \<and>
        (K \<le> j \<longrightarrow> from_slot (shift_in D b n z a (b + j)) = 0)"
  proof cases
    case b then show ?thesis using a n0 by (simp add: shift_in_at)
  next
    case c then show ?thesis using s[of "j - 1"] mid[of "j - 1"] h n0 by (simp add: shift_in_at)
  next
    case d1 then show ?thesis using s[of j] h by (simp add: shift_in_at)
  next
    case d2
    with n0 have "j \<noteq> n" "\<not> j \<le> z" by linarith+
    then show ?thesis using s[of j] h by (simp add: shift_in_at)
  qed
qed

lemma row_inv_cong:
  assumes "K \<le> N" and eq: "\<And>j. 0 \<le> j \<Longrightarrow> j < N \<Longrightarrow> D' (b + j) = D (b + j)"
    and "row_inv N K D b"
  shows "row_inv N K D' b"
proof -
  have e: "\<And>j. 0 \<le> j \<Longrightarrow> j < K \<Longrightarrow> D' (b + j) = D (b + j)" using eq assms(1) by simp
  from assms(3) have s: "row_slots N K D b" and d: "row_dense K D b" and o: "row_sorted K D b"
    by (simp_all add: row_inv_def)
  have "row_slots N K D' b" using s eq by (simp add: row_slots_def)
  moreover have "row_dense K D' b" unfolding row_dense_def
  proof (intro allI impI)
    fix j j' assume h: "0 \<le> j \<and> j \<le> j' \<and> j' < K \<and> from_slot (D' (b + j')) \<noteq> 0"
    then have "from_slot (D (b + j')) \<noteq> 0" using e[of j'] by simp
    from row_denseD[OF d _ _ _ this, of j] h show "from_slot (D' (b + j)) \<noteq> 0" using e[of j] by simp
  qed
  moreover have "row_sorted K D' b" unfolding row_sorted_def
  proof (intro allI impI)
    fix j j' assume h: "0 \<le> j \<and> j \<le> j' \<and> j' < K"
    from row_sortedD[OF o, of j j'] h show "akey_le (D' (b + j)) (D' (b + j'))"
      using e[of j] e[of j'] by simp
  qed
  ultimately show ?thesis by (simp add: row_inv_def)
qed

lemma insert_arrival_skip:
  "\<not> (cost a < cost (D (b + cmp)) \<or>
         (cost a = cost (D (b + cmp)) \<and> score a < score (D (b + cmp)))) \<Longrightarrow>
   insert_arrival K cmp nlim D b a = Some D"
  unfolding insert_arrival_def by (rule if_not_P)

lemma insert_arrival_taken:
  "cost a < cost (D (b + cmp)) \<or>
     (cost a = cost (D (b + cmp)) \<and> score a < score (D (b + cmp))) \<Longrightarrow>
   insert_arrival K cmp nlim D b a =
     (case scan_cheaper D b (cost a) (rep_offset a) 0 of
           None \<Rightarrow> None
         | Some (n, True) \<Rightarrow> Some D
         | Some (n, False) \<Rightarrow>
             (case scan_equal D b (cost a) (score a) (rep_offset a) n of
                None \<Rightarrow> None
              | Some (n', True) \<Rightarrow> Some D
              | Some (n', False) \<Rightarrow>
                  if n' < nlim then
                    (if scan_same_cost D b K (cost a) (rep_offset a) n'
                     then Some D
                     else Some (shift_in D b n' (scan_victim D b K (rep_offset a) n') a))
                  else Some D))"
  unfolding insert_arrival_def by (rule if_P)

lemma insert_arrival_inv:
  assumes inv: "row_inv N K D b" and K: "K \<le> N" and cmp: "0 \<le> cmp" "cmp \<le> K - 1"
    and a: "from_slot a \<noteq> 0" "0 \<le> score a"
  shows "\<exists>D'. insert_arrival K cmp nlim D b a = Some D' \<and> row_inv N K D' b \<and>
              (\<forall>idx. idx < b \<or> b + K \<le> idx \<longrightarrow> D' idx = D idx)"
proof (cases "cost a < cost (D (b + cmp)) \<or>
         (cost a = cost (D (b + cmp)) \<and> score a < score (D (b + cmp)))")
  case False
  from insert_arrival_skip[of a D b cmp K nlim] False show ?thesis using inv by simp
next
  case entry: True
  from insert_arrival_taken[of a D b cmp K nlim] entry
  have tk: "insert_arrival K cmp nlim D b a =
     (case scan_cheaper D b (cost a) (rep_offset a) 0 of
           None \<Rightarrow> None
         | Some (n, True) \<Rightarrow> Some D
         | Some (n, False) \<Rightarrow>
             (case scan_equal D b (cost a) (score a) (rep_offset a) n of
                None \<Rightarrow> None
              | Some (n', True) \<Rightarrow> Some D
              | Some (n', False) \<Rightarrow>
                  if n' < nlim then
                    (if scan_same_cost D b K (cost a) (rep_offset a) n'
                     then Some D
                     else Some (shift_in D b n' (scan_victim D b K (rep_offset a) n') a))
                  else Some D))" by blast
  from inv have sl: "row_slots N K D b" and dn: "row_dense K D b" and so: "row_sorted K D b"
    by (simp_all add: row_inv_def)
  have slot: "\<And>i. 0 \<le> i \<Longrightarrow> i < N \<Longrightarrow>
        0 \<le> score (D (b + i)) \<and>
        (from_slot (D (b + i)) = 0 \<longrightarrow> cost (D (b + i)) = BIG_COST \<and> score (D (b + i)) = 0) \<and>
        (from_slot (D (b + i)) \<noteq> 0 \<longrightarrow> cost (D (b + i)) < BIG_COST)"
    using sl by (simp add: row_slots_def)
  have cN: "cmp < N" using cmp K by simp
  have small: "cost a < BIG_COST"
  proof (cases "from_slot (D (b + cmp)) = 0")
    case True
    with slot[OF cmp(1) cN] have "cost (D (b + cmp)) = BIG_COST" "score (D (b + cmp)) = 0" by simp_all
    with entry a(2) show ?thesis by auto
  next
    case False
    with slot[OF cmp(1) cN] have "cost (D (b + cmp)) < BIG_COST" by simp
    with entry show ?thesis by auto
  qed
  from entry have stop1: "\<not> cost (D (b + cmp)) < cost a" by auto
  from entry have stop2: "\<not> (cost (D (b + cmp)) = cost a \<and> score a \<ge> score (D (b + cmp)))" by auto
  from scan_cheaper_result[where D=D and b=b and cmp=cmp and c="cost a" and ?n0.0=0 and r="rep_offset a"]
    stop1 cmp(1)
  obtain n1 e1 where s1: "scan_cheaper D b (cost a) (rep_offset a) 0 = Some (n1, e1)"
    and n1: "0 \<le> n1" "n1 \<le> cmp"
    and lo1: "\<forall>j. 0 \<le> j \<and> j < n1 \<longrightarrow> cost (D (b + j)) < cost a"
    and ex1: "\<not> e1 \<longrightarrow> \<not> cost (D (b + n1)) < cost a"
    by blast
  show ?thesis
  proof (cases e1)
    case True
    then show ?thesis using s1 inv by (simp add: tk)
  next
    case ne1: False
    from scan_equal_result[where D=D and b=b and cmp=cmp and c="cost a" and s="score a"
                              and ?n0.0=n1 and r="rep_offset a"] stop2 n1(2)
    obtain n2 e2 where s2: "scan_equal D b (cost a) (score a) (rep_offset a) n1 = Some (n2, e2)"
      and n2: "n1 \<le> n2" "n2 \<le> cmp"
      and lo2: "\<forall>j. n1 \<le> j \<and> j < n2 \<longrightarrow> cost (D (b + j)) = cost a \<and> score (D (b + j)) \<le> score a"
      and ex2: "\<not> e2 \<longrightarrow> \<not> (cost (D (b + n2)) = cost a \<and> score a \<ge> score (D (b + n2)))"
      by blast
    show ?thesis
    proof (cases "e2 \<or> \<not> n2 < nlim \<or> scan_same_cost D b K (cost a) (rep_offset a) n2")
      case True
      then show ?thesis using s1 ne1 s2 inv by (auto simp: tk split: bool.splits)
    next
      case False
      let ?z = "scan_victim D b K (rep_offset a) n2"
      from False have ne2: "\<not> e2" by simp
      have res: "insert_arrival K cmp nlim D b a = Some (shift_in D b n2 ?z a)"
        using s1 ne1 s2 False by (simp add: tk)
      have n2K: "n2 \<le> K - 1" using n2 cmp by simp
      from scan_victim_result[OF n2K, of D b "rep_offset a"]
      have z: "n2 \<le> ?z" "?z \<le> K - 1"
        and mid: "\<And>j. n2 \<le> j \<Longrightarrow> j < ?z \<Longrightarrow> from_slot (D (b + j)) \<noteq> 0"
        by simp_all
      have n20: "0 \<le> n2" using n1 n2 by simp
      have lo: "\<And>j. 0 \<le> j \<Longrightarrow> j < n2 \<Longrightarrow> akey_le (D (b + j)) a \<and> from_slot (D (b + j)) \<noteq> 0"
      proof -
        fix j assume j: "0 \<le> j" "j < n2"
        have jN: "j < N" using j n2K K by simp
        have le: "akey_le (D (b + j)) a \<and> cost (D (b + j)) \<le> cost a"
        proof (cases "j < n1")
          case True
          with lo1 j have "cost (D (b + j)) < cost a" by blast
          then show ?thesis by (simp add: akey_le_def)
        next
          case False
          with lo2 j have "cost (D (b + j)) = cost a \<and> score (D (b + j)) \<le> score a" by simp
          then show ?thesis by (simp add: akey_le_def)
        qed
        then have "cost (D (b + j)) < BIG_COST" using small by simp
        with slot[OF j(1) jN] have "from_slot (D (b + j)) \<noteq> 0" by auto
        with le show "akey_le (D (b + j)) a \<and> from_slot (D (b + j)) \<noteq> 0" by simp
      qed
      have ge: "cost a \<le> cost (D (b + n2))"
      proof (cases "n2 = n1")
        case True
        with ex1 ne1 show ?thesis by simp
      next
        case False
        with n2 have p: "n1 \<le> n2 - 1" "n2 - 1 < n2" by simp_all
        with lo2 have "cost (D (b + (n2 - 1))) = cost a" by simp
        moreover from row_sortedD[OF so, of "n2 - 1" n2] n1 p n2K
        have "akey_le (D (b + (n2 - 1))) (D (b + n2))" by simp
        ultimately show ?thesis by (auto simp: akey_le_def)
      qed
      have hi: "akey_le a (D (b + n2))" using ge ex2 ne2 by (auto simp: akey_le_def)
      have r1: "row_sorted K (shift_in D b n2 ?z a) b"
        using shift_in_sorted[OF so n20 z] lo hi by blast
      have r2: "row_dense K (shift_in D b n2 ?z a) b"
        using shift_in_dense[OF dn n20 z _ mid a(1)] lo by blast
      have r3: "row_slots N K (shift_in D b n2 ?z a) b"
        using shift_in_slots[OF sl n20 z mid a(1) small a(2)] by blast
      have fr: "\<forall>idx. idx < b \<or> b + K \<le> idx \<longrightarrow> shift_in D b n2 ?z a idx = D idx"
        using shift_in_outside[OF z(1), of _ b D a] n20 z by auto
      show ?thesis using res r1 r2 r3 fr by (simp add: row_inv_def)
    qed
  qed
qed

lemma rows_disjoint:
  fixes N :: int
  assumes "0 < N" "K \<le> N" "p \<noteq> pd" "0 \<le> j" "j < N"
  shows "p * N + j < pd * N \<or> pd * N + K \<le> p * N + j"
proof (cases "p < pd")
  case True
  then have "p + 1 \<le> pd" by simp
  then have "(p + 1) * N \<le> pd * N" using assms(1) by (intro mult_right_mono) simp_all
  then have "p * N + N \<le> pd * N" by (simp add: algebra_simps)
  then show ?thesis using assms by simp
next
  case False
  with assms(3) have "pd + 1 \<le> p" by simp
  then have "(pd + 1) * N \<le> p * N" using assms(1) by (intro mult_right_mono) simp_all
  then have "pd * N + N \<le> p * N" by (simp add: algebra_simps)
  then show ?thesis using assms by simp
qed

lemma arrivals_init_start:
  "0 < N \<Longrightarrow> 0 \<le> j \<Longrightarrow> j < N \<Longrightarrow>
   arrivals_init N s r (s * N + j) =
     (if j = 0 then empty_arrival\<lparr>from_slot := - 1, rep_offset := r\<rparr> else empty_arrival)"
  by (simp add: arrivals_init_def)

lemma arrivals_init_other:
  assumes "0 < N" "s < p" "0 \<le> j"
  shows "arrivals_init N s r (p * N + j) = empty_arrival"
proof -
  from assms(2) have "s + 1 \<le> p" by simp
  then have "(s + 1) * N \<le> p * N" using assms(1) by (intro mult_right_mono) simp_all
  then have "s * N + N \<le> p * N" by (simp add: algebra_simps)
  then have "p * N + j \<noteq> s * N" using assms by simp
  then show ?thesis by (simp add: arrivals_init_def)
qed

lemma empty_row_inv:
  assumes "\<And>j. 0 \<le> j \<Longrightarrow> D (b + j) = empty_arrival"
  shows "row_inv N K D b"
  using assms
  by (simp add: row_inv_def row_slots_def row_dense_def row_sorted_def empty_arrival_def
                BIG_COST_def akey_le_def)

lemma arrivals_init_ok:
  assumes "0 < N"
  shows "arrivals_ok N K s e r (arrivals_init N s r)"
  unfolding arrivals_ok_def
proof (intro conjI allI impI)
  fix p assume "s < p \<and> p \<le> e"
  then show "row_inv N K (arrivals_init N s r) (p * N)"
    using arrivals_init_other[OF assms, of s p _ r] by (intro empty_row_inv) simp
qed simp

lemma source_score:
  assumes ok: "arrivals_ok N K s e r D" and N: "0 < N" "K \<le> N"
    and i: "s \<le> i" "i \<le> e" and j: "0 \<le> j" "j < K"
  shows "0 \<le> score (D (i * N + j))"
proof (cases "i = s")
  case True
  from ok j N have "D (s * N + j) = arrivals_init N s r (s * N + j)"
    by (simp add: arrivals_ok_def)
  then show ?thesis using True arrivals_init_start[OF N(1) j(1), of s r] j N
    by (simp add: empty_arrival_def)
next
  case False
  with i ok have "row_inv N K D (i * N)" by (simp add: arrivals_ok_def)
  then have "row_slots N K D (i * N)" by (simp add: row_inv_def)
  then show ?thesis using j N by (simp add: row_slots_def)
qed

lemma insert_arrival_ok:
  assumes ok: "arrivals_ok N K s e r D" and N: "0 < N" "K \<le> N"
    and cmp: "0 \<le> cmp" "cmp \<le> K - 1"
    and pd: "s < pd" "pd \<le> e"
    and a: "from_slot a \<noteq> 0" "0 \<le> score a"
    and ins: "insert_arrival K cmp nlim D (pd * N) a = Some D'"
  shows "arrivals_ok N K s e r D'"
proof -
  from ok pd have "row_inv N K D (pd * N)" by (simp add: arrivals_ok_def)
  from insert_arrival_inv[OF this N(2) cmp a, of nlim] ins
  have inv': "row_inv N K D' (pd * N)"
    and fr: "\<And>idx. idx < pd * N \<or> pd * N + K \<le> idx \<Longrightarrow> D' idx = D idx"
    by auto
  have same: "\<And>p j. p \<noteq> pd \<Longrightarrow> 0 \<le> j \<Longrightarrow> j < N \<Longrightarrow> D' (p * N + j) = D (p * N + j)"
    using rows_disjoint[OF N] fr by blast
  show ?thesis unfolding arrivals_ok_def
  proof (intro conjI allI impI)
    fix j assume "0 \<le> j \<and> j < N"
    then have "D' (s * N + j) = D (s * N + j)" using same[of s j] pd by simp
    then show "D' (s * N + j) = arrivals_init N s r (s * N + j)"
      using ok \<open>0 \<le> j \<and> j < N\<close> by (simp add: arrivals_ok_def)
  next
    fix p assume p: "s < p \<and> p \<le> e"
    show "row_inv N K D' (p * N)"
    proof (cases "p = pd")
      case True
      then show ?thesis using inv' by simp
    next
      case False
      from ok p have "row_inv N K D (p * N)" by (simp add: arrivals_ok_def)
      with same[OF False] N show ?thesis by (intro row_inv_cong[of K N D' "p * N" D]) simp_all
    qed
  qed
qed

lemma forward_reaches_ok:
  assumes "forward_reaches N K s e r D" and K: "2 \<le> K" "K \<le> N"
  shows "arrivals_ok N K s e r D"
  using assms(1)
proof (induction rule: forward_reaches.induct)
  case start
  show ?case using K by (intro arrivals_init_ok) simp
next
  case (literal D i j D')
  have N: "0 < N" using K by simp
  from source_score[OF literal.IH N K(2) literal.hyps(2) _ literal.hyps(4,5)] literal.hyps(3)
  have sc: "0 \<le> score (D (i * N + j))" by simp
  show ?case
  proof (rule insert_arrival_ok[OF literal.IH N K(2), of "K - 1" "i + 1" _ K])
    show "insert_arrival K (K - 1) K D ((i + 1) * N) (literal_arrival i j (D (i * N + j))) = Some D'"
      using literal.hyps(7) by (simp add: insert_literal_def)
    show "from_slot (literal_arrival i j (D (i * N + j))) \<noteq> 0"
      using literal.hyps(4) by (simp add: literal_arrival_def Let_def)
    show "0 \<le> score (literal_arrival i j (D (i * N + j)))"
      using sc by (simp add: literal_arrival_def Let_def)
  qed (use K literal.hyps in simp_all)
next
  case (norep D i j k pen off D')
  have N: "0 < N" using K by simp
  from source_score[OF norep.IH N K(2) norep.hyps(2) _ norep.hyps(4,5)] norep.hyps(3)
  have sc: "0 \<le> score (D (i * N + j))" by simp
  show ?case
  proof (rule insert_arrival_ok[OF norep.IH N K(2), of "K - 2" "i + k" _ "K - 1"])
    show "insert_arrival K (K - 2) (K - 1) D ((i + k) * N)
            (norep_arrival i j off pen k (D (i * N + j))) = Some D'"
      using norep.hyps(10) by (simp add: insert_norep_def)
    show "from_slot (norep_arrival i j off pen k (D (i * N + j))) \<noteq> 0"
      using norep.hyps(4) by (simp add: norep_arrival_def Let_def)
    show "0 \<le> score (norep_arrival i j off pen k (D (i * N + j)))"
      using sc norep.hyps(9) by (auto simp: norep_arrival_def Let_def)
  qed (use K norep.hyps in simp_all)
next
  case (rep D i j k D')
  have N: "0 < N" using K by simp
  from source_score[OF rep.IH N K(2) rep.hyps(2) _ rep.hyps(4,5)] rep.hyps(3)
  have sc: "0 \<le> score (D (i * N + j))" by simp
  show ?case
  proof (rule insert_arrival_ok[OF rep.IH N K(2), of "K - 1" "i + k" _ K])
    show "insert_arrival K (K - 1) K D ((i + k) * N) (rep_arrival i j k (D (i * N + j))) = Some D'"
      using rep.hyps(9) by (simp add: insert_rep_def)
    show "from_slot (rep_arrival i j k (D (i * N + j))) \<noteq> 0"
      using rep.hyps(4) by (simp add: rep_arrival_def Let_def)
    show "0 \<le> score (rep_arrival i j k (D (i * N + j)))"
      using sc by (simp add: rep_arrival_def Let_def)
  qed (use K rep.hyps in simp_all)
qed

lemma start_row_dense_sorted:
  assumes ok: "arrivals_ok N K s e r D" and N: "0 < N" "K \<le> N"
  shows "row_dense K D (s * N) \<and> row_sorted K D (s * N)"
proof -
  have v: "\<And>j. 0 \<le> j \<Longrightarrow> j < K \<Longrightarrow>
      D (s * N + j) = (if j = 0 then empty_arrival\<lparr>from_slot := - 1, rep_offset := r\<rparr> else empty_arrival)"
    using ok N arrivals_init_start[OF N(1), of _ s r] by (simp add: arrivals_ok_def)
  have "row_dense K D (s * N)" unfolding row_dense_def
  proof (intro allI impI)
    fix j j' assume h: "0 \<le> j \<and> j \<le> j' \<and> j' < K \<and> from_slot (D (s * N + j')) \<noteq> 0"
    then have "j' = 0" using v[of j'] by (auto simp: empty_arrival_def split: if_splits)
    with h have "j = j'" by simp
    then show "from_slot (D (s * N + j)) \<noteq> 0" using h by simp
  qed
  moreover have "row_sorted K D (s * N)" unfolding row_sorted_def
  proof (intro allI impI)
    fix j j' assume h: "0 \<le> j \<and> j \<le> j' \<and> j' < K"
    then show "akey_le (D (s * N + j)) (D (s * N + j'))"
      using v[of j] v[of j'] by (simp add: akey_le_def empty_arrival_def)
  qed
  ultimately show ?thesis by simp
qed


lemma insert_literal_returns:
  assumes "forward_reaches N K s e r D" and K: "2 \<le> K" "K \<le> N"
    and i: "s \<le> i" "i < e" and j: "0 \<le> j" "j < K"
  shows "\<exists>D'. insert_literal N K D i j = Some D'"
proof -
  have N: "0 < N" using K by simp
  note ok = forward_reaches_ok[OF assms(1) K]
  from source_score[OF ok N K(2) i(1) _ j] i(2) have sc: "0 \<le> score (D (i * N + j))" by simp
  from ok i have "row_inv N K D ((i + 1) * N)" by (simp add: arrivals_ok_def)
  from insert_arrival_inv[OF this K(2), of "K - 1" "literal_arrival i j (D (i * N + j))" K]
  show ?thesis using K j sc by (auto simp: insert_literal_def literal_arrival_def Let_def)
qed

text \<open>
  Claim C8: in every table that the forward parse goes through, and so in the final one, at
  every position \<open>p\<close> of \<open>[s, e]\<close> the non-empty arrivals are a prefix of the \<open>K\<close> slots, the
  slots are in ascending order of (cost, score), and of two slots with the same rep offset
  the one with the lower index costs no more than the other. It holds for every
  \<open>2 \<le> K \<le> N\<close>; the code calls the parse with \<open>K = N / 2\<close> and \<open>K = N\<close>.
\<close>

theorem arrivals_sorted_dense:
  assumes "forward_reaches N K s e r D" and "2 \<le> K" and "K \<le> N" and "s \<le> p" and "p \<le> e"
  shows "row_dense K D (p * N) \<and> row_sorted K D (p * N) \<and>
         (\<forall>j j'. 0 \<le> j \<and> j < j' \<and> j' < K \<and>
                 rep_offset (D (p * N + j)) = rep_offset (D (p * N + j'))
                 \<longrightarrow> cost (D (p * N + j)) \<le> cost (D (p * N + j')))"
proof -
  have N: "0 < N" using assms by simp
  note ok = forward_reaches_ok[OF assms(1,2,3)]
  have ds: "row_dense K D (p * N) \<and> row_sorted K D (p * N)"
  proof (cases "p = s")
    case True
    then show ?thesis using start_row_dense_sorted[OF ok N assms(3)] by simp
  next
    case False
    with assms ok have "row_inv N K D (p * N)" by (simp add: arrivals_ok_def)
    then show ?thesis by (simp add: row_inv_def)
  qed
  moreover have "\<forall>j j'. 0 \<le> j \<and> j < j' \<and> j' < K \<and>
                 rep_offset (D (p * N + j)) = rep_offset (D (p * N + j'))
                 \<longrightarrow> cost (D (p * N + j)) \<le> cost (D (p * N + j'))"
  proof (intro allI impI)
    fix j j' assume h: "0 \<le> j \<and> j < j' \<and> j' < K \<and>
                 rep_offset (D (p * N + j)) = rep_offset (D (p * N + j'))"
    from ds have "row_sorted K D (p * N)" by simp
    from row_sortedD[OF this, of j j'] h have "akey_le (D (p * N + j)) (D (p * N + j'))" by simp
    then show "cost (D (p * N + j)) \<le> cost (D (p * N + j'))" by (auto simp: akey_le_def)
  qed
  ultimately show ?thesis by simp
qed

text \<open>
  An instance: the table after the literal of the first position, with four slots, has its
  arrival in slot 0 of position 1.
\<close>

theorem arrivals_sorted_dense_witness:
  "forward_reaches 4 4 0 2 1 (the (insert_literal 4 4 (arrivals_init 4 0 1) 0 0)) \<and>
   from_slot (the (insert_literal 4 4 (arrivals_init 4 0 1) 0 0) 4) = 1 \<and>
   row_dense 4 (the (insert_literal 4 4 (arrivals_init 4 0 1) 0 0)) 4 \<and>
   row_sorted 4 (the (insert_literal 4 4 (arrivals_init 4 0 1) 0 0)) 4"
proof -
  let ?D = "the (insert_literal 4 4 (arrivals_init 4 0 1) 0 0)"
  have "case insert_literal 4 4 (arrivals_init 4 0 1) 0 0 of None \<Rightarrow> False | Some d \<Rightarrow> True"
    by code_simp
  then have some: "insert_literal 4 4 (arrivals_init 4 0 1) 0 0 = Some ?D"
    by (cases "insert_literal 4 4 (arrivals_init 4 0 1) 0 0") simp_all
  have src: "from_slot (arrivals_init 4 0 1 (0 * 4 + 0)) \<noteq> 0"
    by (simp add: arrivals_init_def empty_arrival_def)
  have r: "forward_reaches 4 4 0 2 1 ?D"
    by (rule forward_reaches.literal[OF forward_reaches.start _ _ _ _ src some]) simp_all
  have fs: "from_slot (?D 4) = 1" by code_simp
  from arrivals_sorted_dense[OF r, of 1] have "row_dense 4 ?D 4 \<and> row_sorted 4 ?D 4" by simp
  with r fs show ?thesis by blast
qed

end
